theory Spec2Isabelle
  imports Complex_Main "HOL-Library.Multiset"
begin

section \<open>Double-precision arithmetic of the Python operators\<close>

text \<open>
  The script mixes Python integers with floats: \<^verbatim>\<open>x / 100\<close>, \<^verbatim>\<open>total_length * (x / 100)\<close>,
  \<^verbatim>\<open>(total_gc / total_length) * 100\<close>, \<^verbatim>\<open>total_length / num_contigs\<close>. A finite double is a
  real number, so a float is modelled by the real it denotes, and every operation returns the
  exact result rounded to the nearest double, ties to the even significand (IEEE 754 binary64:
  53 significant bits, least exponent \<open>-1074\<close>). The largest exponent is not modelled: the
  numbers here are bounded by the total length of sequences held in memory, far below
  \<open>2^1024\<close>, so no operation of the script overflows.
\<close>

fun flog2 :: "nat \<Rightarrow> nat" where
  "flog2 n = (if n < 2 then 0 else Suc (flog2 (n div 2)))"

declare flog2.simps [simp del]

definition ilog2 :: "real \<Rightarrow> int" where
  \<comment> \<open>the binary exponent of a positive number: \<open>2 powi ilog2 r \<le> r < 2 powi (ilog2 r + 1)\<close>\<close>
  "ilog2 r = (if 1 \<le> r then int (flog2 (nat \<lfloor>r\<rfloor>))
              else - int (Suc (flog2 (nat (\<lceil>1 / r\<rceil> - 1)))))"

definition rne :: "real \<Rightarrow> int" where
  \<comment> \<open>round to the nearest integer, ties to even\<close>
  "rne q = (let n = \<lfloor>q\<rfloor>; f = q - of_int n in
            if f < 1 / 2 then n else if 1 / 2 < f then n + 1
            else if even n then n else n + 1)"

definition expo :: "real \<Rightarrow> int" where
  \<comment> \<open>the exponent of the last significand bit of the double nearest to a positive number\<close>
  "expo r = max (ilog2 r - 52) (- 1074)"

definition fl :: "real \<Rightarrow> real" where
  "fl r = (if r = 0 then 0
           else let e = expo \<bar>r\<bar>
                in sgn r * of_int (rne (\<bar>r\<bar> / 2 powi e)) * 2 powi e)"

definition py_float :: "nat \<Rightarrow> real" where
  \<comment> \<open>the conversion of an integer operand to float\<close>
  "py_float n = fl (real n)"

definition py_truediv :: "real \<Rightarrow> real \<Rightarrow> real" where
  \<comment> \<open>Python's \<^verbatim>\<open>a / b\<close>, correctly rounded for integers and for floats; the script divides
      by the constant 100 or by a divisor it has tested to be positive\<close>
  "py_truediv a b = fl (a / b)"

definition py_mul :: "real \<Rightarrow> real \<Rightarrow> real" where
  \<comment> \<open>the float product \<^verbatim>\<open>a * b\<close>\<close>
  "py_mul a b = fl (a * b)"

section \<open>Records, errors and the environment\<close>

record seqrecord =
  seqid :: string
  seq :: string

datatype pyval = PInt int | PFloat real | PStr string | PList "int list"

datatype exn = FileNotFoundError string | ValueError string | OSError string

text \<open>
  What the script takes from outside: the file system (\<^verbatim>\<open>Path.exists\<close>, \<^verbatim>\<open>str(Path)\<close>,
  \<^verbatim>\<open>Path.stem\<close>, \<^verbatim>\<open>Path / name\<close>), Biopython's \<^verbatim>\<open>SeqIO.parse\<close> consumed into a list, numpy's
  \<^verbatim>\<open>median\<close>, and the writers \<^verbatim>\<open>plt.savefig\<close> and \<^verbatim>\<open>DataFrame.to_csv\<close>. \<^verbatim>\<open>Path.exists\<close> answers
  \<open>Inr\<close> of a boolean, or raises the \<^verbatim>\<open>OSError\<close> of a path it cannot examine (permission
  denied, name too long): \<open>Inl\<close> of its message. For the parser \<open>Inl\<close> is the message of the
  exception it raised. A writer returns \<open>None\<close>, or \<open>Some\<close> of the exception it raised (a
  \<^verbatim>\<open>FileNotFoundError\<close> for a directory that does not exist).
\<close>

record env =
  path_exists :: "string \<Rightarrow> string + bool"
  path_str :: "string \<Rightarrow> string"
  path_stem :: "string \<Rightarrow> string"
  path_join :: "string \<Rightarrow> string \<Rightarrow> string"
  seqio_parse :: "string \<Rightarrow> string + seqrecord list"
  np_median :: "nat list \<Rightarrow> real"
  savefig :: "string \<Rightarrow> exn option"
  to_csv :: "string \<Rightarrow> exn option"

section \<open>The statistics engine\<close>

definition sort_desc :: "nat list \<Rightarrow> nat list" where
  \<comment> \<open>\<^verbatim>\<open>lengths.sort(reverse=True)\<close>\<close>
  "sort_desc ls = rev (sort ls)"

definition nx_target :: "nat \<Rightarrow> real \<Rightarrow> real" where
  \<comment> \<open>\<^verbatim>\<open>total_length * (x / 100)\<close>\<close>
  "nx_target total_length x = py_mul (py_float total_length) (py_truediv x 100)"

fun nx_loop :: "real \<Rightarrow> nat \<Rightarrow> nat list \<Rightarrow> nat option" where
  "nx_loop target cumulative [] = None"
| "nx_loop target cumulative (l # ls) =
     (let c = cumulative + l in
      if target \<le> real c then Some l else nx_loop target c ls)"

definition calculate_nx :: "nat \<Rightarrow> nat list \<Rightarrow> real \<Rightarrow> nat" where
  \<comment> \<open>the closure of \<^verbatim>\<open>_calculate_stats\<close>; \<open>total_length\<close> is its captured variable\<close>
  "calculate_nx total_length lengths x =
     (case nx_loop (nx_target total_length x) 0 lengths of Some l \<Rightarrow> l | None \<Rightarrow> 0)"

fun lx_loop :: "real \<Rightarrow> nat \<Rightarrow> nat \<Rightarrow> nat list \<Rightarrow> nat option" where
  "lx_loop target cumulative i [] = None"
| "lx_loop target cumulative i (l # ls) =
     (let c = cumulative + l in
      if target \<le> real c then Some i else lx_loop target c (Suc i) ls)"

definition calculate_lx :: "nat list \<Rightarrow> real \<Rightarrow> nat" where
  "calculate_lx lengths x =
     (case lx_loop (nx_target (sum_list lengths) x) 0 1 lengths of
        Some i \<Rightarrow> i | None \<Rightarrow> length lengths)"

definition seq_lengths :: "seqrecord list \<Rightarrow> nat list" where
  \<comment> \<open>\<^verbatim>\<open>lengths\<close> after the sort\<close>
  "seq_lengths sequences = sort_desc (map (\<lambda>r. length (seq r)) sequences)"

definition total_gc :: "seqrecord list \<Rightarrow> nat" where
  "total_gc sequences =
     sum_list (map (\<lambda>r. count_list (seq r) CHR ''G'' + count_list (seq r) CHR ''C''
                        + count_list (seq r) CHR ''g'' + count_list (seq r) CHR ''c'') sequences)"

definition total_n :: "seqrecord list \<Rightarrow> nat" where
  "total_n sequences =
     sum_list (map (\<lambda>r. count_list (seq r) CHR ''N'' + count_list (seq r) CHR ''n'') sequences)"

definition percent :: "nat \<Rightarrow> nat \<Rightarrow> pyval" where
  \<comment> \<open>\<^verbatim>\<open>(count / total_length) * 100 if total_length > 0 else 0\<close>\<close>
  "percent cnt total_length =
     (if 0 < total_length then PFloat (py_mul (py_truediv (real cnt) (real total_length)) 100)
      else PInt 0)"

definition calculate_stats :: "env \<Rightarrow> string \<Rightarrow> seqrecord list \<Rightarrow> (string \<times> pyval) list" where
  "calculate_stats e assembly_file sequences =
     (let lengths = seq_lengths sequences;
          total_length = sum_list lengths;
          num_contigs = length lengths;
          gc_content = percent (total_gc sequences) total_length;
          n_content = percent (total_n sequences) total_length
      in [(''file'', PStr (path_str e assembly_file)),
          (''num_contigs'', PInt (int num_contigs)),
          (''total_length'', PInt (int total_length)),
          (''longest_contig'', PInt (if lengths \<noteq> [] then int (Max (set lengths)) else 0)),
          (''shortest_contig'', PInt (if lengths \<noteq> [] then int (Min (set lengths)) else 0)),
          (''mean_length'',
             if 0 < num_contigs then PFloat (py_truediv (real total_length) (real num_contigs))
             else PInt 0),
          (''median_length'', if lengths \<noteq> [] then PFloat (np_median e lengths) else PInt 0),
          (''n50'', PInt (int (calculate_nx total_length lengths 50))),
          (''n90'', PInt (int (calculate_nx total_length lengths 90))),
          (''l50'', PInt (int (calculate_lx lengths 50))),
          (''l90'', PInt (int (calculate_lx lengths 90))),
          (''gc_content'', gc_content),
          (''n_content'', n_content),
          (''lengths'', PList (map int lengths))])"

section \<open>Loading an assembly\<close>

record analyzer =
  assembly_file :: string
  sequences :: "seqrecord list"
  stats :: "(string \<times> pyval) list"

definition load_sequences :: "env \<Rightarrow> string \<Rightarrow> exn + seqrecord list" where
  \<comment> \<open>the \<^verbatim>\<open>except Exception\<close> clause also catches the \<^verbatim>\<open>ValueError\<close> raised for an empty
      list, and wraps its message as it wraps the parser's\<close>
  "load_sequences e file =
     (case seqio_parse e file of
        Inl msg \<Rightarrow> Inl (ValueError (''Error reading assembly file: '' @ msg))
      | Inr parsed \<Rightarrow>
          if parsed = []
          then Inl (ValueError (''Error reading assembly file: ''
                                  @ ''No sequences found in the assembly file''))
          else Inr parsed)"

definition new_analyzer :: "env \<Rightarrow> string \<Rightarrow> exn + analyzer" where
  \<comment> \<open>\<^verbatim>\<open>AssemblyAnalyzer.__init__\<close>; the call of \<^verbatim>\<open>exists\<close> stands outside every \<^verbatim>\<open>try\<close>, so
      an error it raises leaves the constructor as it is\<close>
  "new_analyzer e file =
     (case path_exists e file of
        Inl msg \<Rightarrow> Inl (OSError msg)
      | Inr found \<Rightarrow>
          if \<not> found then Inl (FileNotFoundError (''Assembly file not found: '' @ file))
          else case load_sequences e file of
                 Inl ex \<Rightarrow> Inl ex
               | Inr parsed \<Rightarrow>
                   Inr \<lparr>assembly_file = file, sequences = parsed,
                        stats = calculate_stats e file parsed\<rparr>)"

definition get_basic_stats :: "analyzer \<Rightarrow> (string \<times> pyval) list" where
  "get_basic_stats a = filter (\<lambda>(k, v). k \<noteq> ''lengths'') (stats a)"

section \<open>Comparison mode\<close>

datatype event =
    Print string
  | PrintTable "pyval option list list"
  | BarChart string "string list" "pyval option list"
  | SaveFig string
  | WriteTable string "(string \<times> pyval) list list"
  | ShowFigure

fun exn_str :: "exn \<Rightarrow> string" where
  "exn_str (FileNotFoundError msg) = msg"
| "exn_str (ValueError msg) = msg"
| "exn_str (OSError msg) = msg"

fun compare_loop ::
  "env \<Rightarrow> string list \<Rightarrow> analyzer list \<Rightarrow> string list \<Rightarrow> event list
     \<Rightarrow> analyzer list \<times> string list \<times> event list" where
  "compare_loop e [] analyzers names out = (analyzers, names, out)"
| "compare_loop e (file # files) analyzers names out =
     (case new_analyzer e file of
        Inr a \<Rightarrow> compare_loop e files (analyzers @ [a]) (names @ [path_stem e file]) out
      | Inl ex \<Rightarrow>
          compare_loop e files analyzers names
            (out @ [Print (''Error processing '' @ file @ '': '' @ exn_str ex)]))"

definition comparison_cols :: "string list" where
  "comparison_cols = [''assembly'', ''num_contigs'', ''total_length'', ''n50'', ''gc_content'']"

definition comparison_output ::
  "env \<Rightarrow> analyzer list \<Rightarrow> string list \<Rightarrow> string option \<Rightarrow> event list \<times> exn option" where
  \<comment> \<open>\<^verbatim>\<open>compare_assemblies\<close> after its guard: the events, and the exception that ended them\<close>
  "comparison_output e analyzers names output_dir =
     (let comparison_data =
            map (\<lambda>(a, n). get_basic_stats a @ [(''assembly'', PStr n)]) (zip analyzers names);
          bars = (\<lambda>title key. BarChart title names (map (\<lambda>a. map_of (stats a) key) analyzers));
          shown =
            [Print (CHR 0x0A # ''Assembly Comparison:''),
             Print (replicate 80 CHR ''=''),
             PrintTable (map (\<lambda>row. map (map_of row) comparison_cols) comparison_data),
             Print (replicate 80 CHR ''=''),
             bars ''Number of Contigs Comparison'' ''num_contigs'',
             bars ''Total Length Comparison'' ''total_length'',
             bars ''N50 Comparison'' ''n50'',
             bars ''GC Content Comparison'' ''gc_content'']
      in case output_dir of
           None \<Rightarrow> (shown @ [ShowFigure], None)
         | Some d \<Rightarrow>
             if d = [] then (shown @ [ShowFigure], None)
             else
               let output_file = path_join e d ''assembly_comparison.png'';
                   table_file = path_join e d ''assembly_comparison.tsv''
               in case savefig e output_file of
                    Some ex \<Rightarrow> (shown, Some ex)
                  | None \<Rightarrow>
                      (case to_csv e table_file of
                         Some ex \<Rightarrow>
                           (shown @ [SaveFig output_file,
                                     Print (''Comparison plot saved to: '' @ output_file)],
                            Some ex)
                       | None \<Rightarrow>
                           (shown @ [SaveFig output_file,
                                     Print (''Comparison plot saved to: '' @ output_file),
                                     WriteTable table_file comparison_data,
                                     Print (''Comparison table saved to: '' @ table_file)],
                            None)))"

definition compare_assemblies ::
  "env \<Rightarrow> string list \<Rightarrow> string option \<Rightarrow> event list \<times> exn option" where
  "compare_assemblies e assembly_files output_dir =
     (case compare_loop e assembly_files [] [] [] of
        (analyzers, names, out) \<Rightarrow>
          if length analyzers < 2
          then (out @ [Print ''Need at least 2 valid assemblies for comparison''], None)
          else case comparison_output e analyzers names output_dir of
                 (events, raised) \<Rightarrow> (out @ events, raised))"

section \<open>The statistics as functions of the record lengths\<close>

text \<open>
  \<^verbatim>\<open>_calculate_stats\<close> sorts the record lengths, sums them and calls \<^verbatim>\<open>calculate_nx\<close> and
  \<^verbatim>\<open>_calculate_lx\<close> on the sorted list; \<open>stat_nx\<close> and \<open>stat_lx\<close> are these compositions.
  The predicates \<open>reaches\<close> and \<open>first_rank\<close> state the threshold walk the statistics
  are specified by: the cumulative sum of the first \<open>k\<close> lengths reaches a target, and
  \<open>k\<close> is the first such rank, counted from one.
\<close>

definition stat_nx :: "nat list \<Rightarrow> real \<Rightarrow> nat" where
  "stat_nx ls x = calculate_nx (sum_list (sort_desc ls)) (sort_desc ls) x"

definition stat_lx :: "nat list \<Rightarrow> real \<Rightarrow> nat" where
  "stat_lx ls x = calculate_lx (sort_desc ls) x"

definition reaches :: "real \<Rightarrow> nat list \<Rightarrow> nat \<Rightarrow> bool" where
  "reaches t ls k \<longleftrightarrow> t \<le> real (sum_list (take k ls))"

definition first_rank :: "real \<Rightarrow> nat list \<Rightarrow> nat \<Rightarrow> bool" where
  "first_rank t ls k \<longleftrightarrow>
     k \<in> {1..length ls} \<and> reaches t ls k \<and> (\<forall>j\<in>{1..<k}. \<not> reaches t ls j)"

section \<open>Residue classes, case variants and load outcomes\<close>

text \<open>
  The notions the composition and loading properties are stated with: the characters counted
  as GC and as N, all residues of a record list, the other-case variant of an ASCII letter,
  the two failures and the success of loading, which inputs of a comparison load, the
  warning printed for one that does not, the table row of one that does, and the keys of
  the summary mapping.
\<close>

definition is_gc :: "char \<Rightarrow> bool" where
  "is_gc c \<longleftrightarrow> c = CHR ''G'' \<or> c = CHR ''C'' \<or> c = CHR ''g'' \<or> c = CHR ''c''"

definition is_n :: "char \<Rightarrow> bool" where
  "is_n c \<longleftrightarrow> c = CHR ''N'' \<or> c = CHR ''n''"

definition residues :: "seqrecord list \<Rightarrow> string" where
  "residues seqs = concat (map seq seqs)"

definition swapcase :: "char \<Rightarrow> char" where
  "swapcase c =
     (let n = (of_char c :: nat) in
      if 65 \<le> n \<and> n \<le> 90 then char_of (n + 32)
      else if 97 \<le> n \<and> n \<le> 122 then char_of (n - 32)
      else c)"

definition case_variant :: "seqrecord \<Rightarrow> seqrecord \<Rightarrow> bool" where
  "case_variant r r' \<longleftrightarrow>
     seqid r' = seqid r \<and> list_all2 (\<lambda>a b. b = a \<or> b = swapcase a) (seq r) (seq r')"

definition fails_not_found :: "exn + analyzer \<Rightarrow> bool" where
  "fails_not_found r = (case r of Inl (FileNotFoundError msg) \<Rightarrow> True | _ \<Rightarrow> False)"

definition fails_parse :: "exn + analyzer \<Rightarrow> bool" where
  "fails_parse r = (case r of Inl (ValueError msg) \<Rightarrow> True | _ \<Rightarrow> False)"

definition is_loaded :: "exn + analyzer \<Rightarrow> bool" where
  "is_loaded r = (case r of Inr a \<Rightarrow> True | Inl ex \<Rightarrow> False)"

definition table_row :: "analyzer \<Rightarrow> string \<Rightarrow> pyval option list" where
  \<comment> \<open>the row of the comparison table for one loaded input and its name\<close>
  "table_row a n =
     [Some (PStr n), map_of (stats a) ''num_contigs'', map_of (stats a) ''total_length'',
      map_of (stats a) ''n50'', map_of (stats a) ''gc_content'']"

definition loads :: "env \<Rightarrow> string \<Rightarrow> bool" where
  "loads e file = (case new_analyzer e file of Inr a \<Rightarrow> True | Inl ex \<Rightarrow> False)"

definition load_warning :: "env \<Rightarrow> string \<Rightarrow> event" where
  "load_warning e file =
     Print (''Error processing '' @ file @ '': ''
            @ (case new_analyzer e file of Inl ex \<Rightarrow> exn_str ex | Inr a \<Rightarrow> []))"

definition loaded :: "env \<Rightarrow> string list \<Rightarrow> analyzer list" where
  "loaded e files =
     concat (map (\<lambda>file. case new_analyzer e file of Inr a \<Rightarrow> [a] | Inl ex \<Rightarrow> []) files)"

definition basic_keys :: "string list" where
  "basic_keys = [''file'', ''num_contigs'', ''total_length'', ''longest_contig'',
                 ''shortest_contig'', ''mean_length'', ''median_length'', ''n50'', ''n90'',
                 ''l50'', ''l90'', ''gc_content'', ''n_content'']"

text \<open>
  An environment to run the model on: three parseable files (one of them without records),
  one file that is not in the record format, one path in a directory that may not be
  searched, and no other path; every directory but \<open>nodir\<close> can be written.
\<close>

definition sample_env :: env where
  "sample_env =
     \<lparr>path_exists =
        (\<lambda>p. if p = ''locked/c.fasta'' then Inl ''[Errno 13] Permission denied''
             else Inr (p \<in> {''a.fasta'', ''b.fasta'', ''empty.fasta'', ''bad.txt''})),
      path_str = (\<lambda>p. p),
      path_stem = (\<lambda>p. takeWhile (\<lambda>c. c \<noteq> CHR ''.'') p),
      path_join = (\<lambda>d n. d @ ''/'' @ n),
      seqio_parse =
        (\<lambda>p. if p = ''a.fasta''
             then Inr [\<lparr>seqid = ''s1'', seq = ''GGCC''\<rparr>, \<lparr>seqid = ''s2'', seq = ''AATT''\<rparr>]
             else if p = ''b.fasta'' then Inr [\<lparr>seqid = ''t1'', seq = ''ACGTN''\<rparr>]
             else if p = ''empty.fasta'' then Inr []
             else Inl ''not a FASTA file''),
      np_median =
        (\<lambda>ls. fl ((real (sort ls ! ((length ls - 1) div 2)) + real (sort ls ! (length ls div 2))) / 2)),
      savefig =
        (\<lambda>p. if take 6 p = ''nodir/''
             then Some (FileNotFoundError ''[Errno 2] No such file or directory'') else None),
      to_csv =
        (\<lambda>p. if take 6 p = ''nodir/''
             then Some (FileNotFoundError ''[Errno 2] No such file or directory'') else None)\<rparr>"

section \<open>Rounding to the nearest double\<close>

lemma flog2_bounds: "0 < n \<Longrightarrow> 2 ^ flog2 n \<le> n \<and> n < 2 ^ Suc (flog2 n)"
proof (induction n rule: flog2.induct)
  case (1 n)
  show ?case
  proof (cases "n < 2")
    case True
    with 1 show ?thesis by (simp add: flog2.simps)
  next
    case False
    then have pos: "0 < n div 2" by simp
    from 1(1) [OF False pos]
    have lo: "2 ^ flog2 (n div 2) \<le> n div 2" and hi: "n div 2 < 2 ^ Suc (flog2 (n div 2))"
      by simp_all
    have eq: "flog2 n = Suc (flog2 (n div 2))" using False by (simp add: flog2.simps)
    from lo have "2 * 2 ^ flog2 (n div 2) \<le> n" by linarith
    moreover from hi have "n < 2 * 2 ^ Suc (flog2 (n div 2))" by linarith
    ultimately show ?thesis by (simp add: eq)
  qed
qed

lemma ilog2_bounds:
  assumes "0 < r"
  shows "2 powi ilog2 r \<le> r \<and> r < 2 powi (ilog2 r + 1)"
proof (cases "1 \<le> r")
  case True
  define n where "n = nat \<lfloor>r\<rfloor>"
  have npos: "0 < n" using True by (simp add: n_def)
  have rn: "real n \<le> r" "r < real n + 1" using True by (simp_all add: n_def)
  from flog2_bounds [OF npos]
  have "(2::nat) ^ flog2 n \<le> n" "n < 2 ^ Suc (flog2 n)" by simp_all
  then have "real (2 ^ flog2 n) \<le> real n" "real (Suc n) \<le> real (2 ^ Suc (flog2 n))"
    unfolding of_nat_le_iff by simp_all
  then have "(2::real) ^ flog2 n \<le> real n" "real n + 1 \<le> 2 ^ Suc (flog2 n)"
    by simp_all
  then have k: "(2::real) ^ flog2 n \<le> r" "r < 2 ^ Suc (flog2 n)"
    using rn by linarith+
  have e: "ilog2 r = int (flog2 n)" using True by (simp add: ilog2_def n_def)
  have p1: "2 powi ilog2 r = (2::real) ^ flog2 n"
    unfolding e by simp
  have "ilog2 r + 1 = int (Suc (flog2 n))" using e by simp
  then have p2: "2 powi (ilog2 r + 1) = (2::real) ^ Suc (flog2 n)"
    by (simp only: power_int_of_nat)
  show ?thesis unfolding p1 p2 using k by simp
next
  case False
  define c where "c = \<lceil>1 / r\<rceil>"
  define n where "n = nat (c - 1)"
  have b: "1 < 1 / r" using False assms by simp
  have c2: "2 \<le> c" using b unfolding c_def by linarith
  have npos: "0 < n" using c2 by (simp add: n_def)
  have nc: "int n = c - 1" using c2 by (simp add: n_def)
  have cb: "1 / r \<le> of_int c" "of_int c - 1 < 1 / r" unfolding c_def by linarith+
  from flog2_bounds [OF npos]
  have "(2::nat) ^ flog2 n \<le> n" "n < 2 ^ Suc (flog2 n)" by simp_all
  then have "real (2 ^ flog2 n) \<le> real n" "real (Suc n) \<le> real (2 ^ Suc (flog2 n))"
    unfolding of_nat_le_iff by simp_all
  then have "(2::real) ^ flog2 n \<le> real n" "real n + 1 \<le> 2 ^ Suc (flog2 n)"
    by simp_all
  moreover have "real n = of_int c - 1" using nc by (metis of_int_1 of_int_diff of_int_of_nat_eq)
  ultimately have k: "(2::real) ^ flog2 n < 1 / r" "1 / r \<le> 2 ^ Suc (flog2 n)"
    using cb by linarith+
  have e: "ilog2 r = - int (Suc (flog2 n))" using False by (simp add: ilog2_def n_def c_def)
  have p1: "2 powi ilog2 r = 1 / (2::real) ^ Suc (flog2 n)"
    unfolding e by (simp only: power_int_minus_divide power_int_of_nat)
  have p2: "2 powi (ilog2 r + 1) = 1 / (2::real) ^ flog2 n"
  proof -
    have "ilog2 r + 1 = - int (flog2 n)" using e by simp
    then show ?thesis by (simp only: power_int_minus_divide power_int_of_nat)
  qed
  have "1 / (2::real) ^ Suc (flog2 n) \<le> r"
    using k(2) assms by (simp add: field_simps del: power_Suc)
  moreover have "r < 1 / (2::real) ^ flog2 n"
    using k(1) assms by (simp add: field_simps)
  ultimately show ?thesis unfolding p1 p2 by simp
qed

lemma rne_floor_le: "\<lfloor>q\<rfloor> \<le> rne q" and rne_le_floor1: "rne q \<le> \<lfloor>q\<rfloor> + 1"
  by (simp_all add: rne_def Let_def)

lemma rne_of_int [simp]: "rne (of_int n) = n"
  by (simp add: rne_def)

lemma rne_mono: "a \<le> b \<Longrightarrow> rne a \<le> rne b"
proof -
  assume ab: "a \<le> b"
  then have fl: "\<lfloor>a\<rfloor> \<le> \<lfloor>b\<rfloor>" by (rule floor_mono)
  show ?thesis
  proof (cases "\<lfloor>a\<rfloor> = \<lfloor>b\<rfloor>")
    case True
    then show ?thesis using ab by (auto simp add: rne_def Let_def)
  next
    case False
    with fl have "\<lfloor>a\<rfloor> + 1 \<le> \<lfloor>b\<rfloor>" by simp
    with rne_le_floor1 [of a] rne_floor_le [of b] show ?thesis by linarith
  qed
qed


lemma ilog2_mono:
  assumes "0 < a" "a \<le> b"
  shows "ilog2 a \<le> ilog2 b"
proof (rule ccontr)
  assume "\<not> ilog2 a \<le> ilog2 b"
  then have "ilog2 b + 1 \<le> ilog2 a" by simp
  then have "(2::real) powi (ilog2 b + 1) \<le> 2 powi ilog2 a"
    by (intro power_int_increasing) simp_all
  also have "\<dots> \<le> a" using ilog2_bounds [OF assms(1)] by simp
  also have "\<dots> \<le> b" by fact
  also have "\<dots> < 2 powi (ilog2 b + 1)" using ilog2_bounds [of b] assms by simp
  finally show False by simp
qed

lemma expo_mono: "0 < a \<Longrightarrow> a \<le> b \<Longrightarrow> expo a \<le> expo b"
  using ilog2_mono [of a b] by (simp add: expo_def)

lemma fl_pos: "0 < r \<Longrightarrow> fl r = of_int (rne (r / 2 powi expo r)) * 2 powi expo r"
  by (simp add: fl_def Let_def)

lemma fl_zero [simp]: "fl 0 = 0"
  by (simp add: fl_def)

lemma fl_minus: "fl (- r) = - fl r"
  by (simp add: fl_def Let_def)

lemma scaled_less:
  assumes "0 < r"
  shows "r / 2 powi expo r < 2 ^ 53"
proof -
  have "ilog2 r + 1 \<le> expo r + 53" by (simp add: expo_def)
  then have "(2::real) powi (ilog2 r + 1) \<le> 2 powi (expo r + 53)"
    by (intro power_int_increasing) simp_all
  with ilog2_bounds [OF assms] have "r < 2 powi (expo r + 53)" by simp
  also have "\<dots> = 2 powi expo r * 2 ^ 53" by (simp add: power_int_add)
  finally show ?thesis by (simp add: field_simps)
qed

lemma scaled_ge:
  assumes "0 < r" "- 1074 < expo r"
  shows "2 ^ 52 \<le> r / 2 powi expo r"
proof -
  have "expo r + 52 = ilog2 r" using assms(2) by (simp add: expo_def max_def split: if_splits)
  then have "(2::real) powi (expo r + 52) \<le> r" using ilog2_bounds [OF assms(1)] by simp
  moreover have "(2::real) powi (expo r + 52) = 2 powi expo r * 2 ^ 52" by (simp add: power_int_add)
  ultimately show ?thesis by (simp add: field_simps)
qed

lemma rne_scaled_le:
  assumes "0 < r"
  shows "rne (r / 2 powi expo r) \<le> 2 ^ 53"
proof -
  have "r / 2 powi expo r \<le> of_int (2 ^ 53)" using scaled_less [OF assms] by simp
  from rne_mono [OF this] show ?thesis by (simp only: rne_of_int)
qed

lemma rne_scaled_ge:
  assumes "0 < r" "- 1074 < expo r"
  shows "2 ^ 52 \<le> rne (r / 2 powi expo r)"
proof -
  have "of_int (2 ^ 52) \<le> r / 2 powi expo r" using scaled_ge [OF assms] by simp
  from rne_mono [OF this] show ?thesis by (simp only: rne_of_int)
qed

lemma fl_nonneg: "0 \<le> r \<Longrightarrow> 0 \<le> fl r"
proof (cases "r = 0")
  case False
  assume "0 \<le> r"
  with False have pos: "0 < r" by simp
  have "0 \<le> r / 2 powi expo r" using pos by simp
  then have "rne (of_int 0) \<le> rne (r / 2 powi expo r)" by (intro rne_mono) simp
  then have "0 \<le> rne (r / 2 powi expo r)" by (simp only: rne_of_int)
  then show ?thesis by (simp add: fl_pos [OF pos])
qed simp

lemma fl_mono_pos:
  assumes "0 < a" "a \<le> b"
  shows "fl a \<le> fl b"
proof -
  have bpos: "0 < b" using assms by simp
  have le: "expo a \<le> expo b" using assms by (rule expo_mono)
  show ?thesis
  proof (cases "expo a = expo b")
    case True
    have "a / 2 powi expo b \<le> b / 2 powi expo b" using assms by (simp add: divide_right_mono)
    then have "rne (a / 2 powi expo b) \<le> rne (b / 2 powi expo b)" by (rule rne_mono)
    then have "real_of_int (rne (a / 2 powi expo b)) * 2 powi expo b
                 \<le> real_of_int (rne (b / 2 powi expo b)) * 2 powi expo b"
      by (intro mult_right_mono) simp_all
    then show ?thesis by (simp add: fl_pos [OF assms(1)] fl_pos [OF bpos] True)
  next
    case False
    with le have lt: "expo a + 1 \<le> expo b" by simp
    have "- 1074 \<le> expo a" by (simp add: expo_def)
    with lt have big: "- 1074 < expo b" by simp
    have "fl a \<le> 2 ^ 53 * 2 powi expo a"
      unfolding fl_pos [OF assms(1)]
      using rne_scaled_le [OF assms(1)]
      by (intro mult_right_mono) simp_all
    also have "\<dots> = 2 ^ 52 * 2 powi (expo a + 1)" by (simp add: power_int_add)
    also have "\<dots> \<le> 2 ^ 52 * 2 powi expo b"
      using lt by (intro mult_left_mono power_int_increasing) simp_all
    also have "\<dots> \<le> fl b"
      unfolding fl_pos [OF bpos]
      using rne_scaled_ge [OF bpos big]
      by (intro mult_right_mono) simp_all
    finally show ?thesis .
  qed
qed

lemma fl_mono: "a \<le> b \<Longrightarrow> fl a \<le> fl b"
proof -
  assume ab: "a \<le> b"
  consider "0 < a" | "a = 0" | "a < 0" "0 \<le> b" | "a < 0" "b < 0" by linarith
  then show ?thesis
  proof cases
    case 1
    then show ?thesis using ab by (rule fl_mono_pos)
  next
    case 2
    then show ?thesis using ab fl_nonneg [of b] by simp
  next
    case 3
    have "0 \<le> fl (- a)" using 3 by (intro fl_nonneg) simp
    then have "fl a \<le> 0" using fl_minus [of a] by simp
    with fl_nonneg [OF 3(2)] show ?thesis by simp
  next
    case 4
    have "fl (- b) \<le> fl (- a)" using 4 ab by (intro fl_mono_pos) simp_all
    then show ?thesis by (simp add: fl_minus)
  qed
qed

lemma fl_exact:
  assumes "0 < r" "r / 2 powi expo r = of_int m"
  shows "fl r = r"
proof -
  have "fl r = of_int m * 2 powi expo r"
    unfolding fl_pos [OF assms(1)] assms(2) by (simp only: rne_of_int)
  also have "\<dots> = r" using assms(2) [symmetric] by simp
  finally show ?thesis .
qed

lemma fl_of_nat:
  assumes "n < 2 ^ 53"
  shows "fl (real n) = real n"
proof (cases "n = 0")
  case False
  then have pos: "0 < real n" by simp
  have "real n < 2 powi 53" using assms
    by (metis of_nat_less_iff of_nat_numeral of_nat_power power_int_numeral)
  have ub: "ilog2 (real n) < 53"
  proof (rule ccontr)
    assume "\<not> ilog2 (real n) < 53"
    then have "(2::real) powi 53 \<le> 2 powi ilog2 (real n)"
      by (intro power_int_increasing) simp_all
    with ilog2_bounds [OF pos] \<open>real n < 2 powi 53\<close> show False by linarith
  qed
  have lb: "0 \<le> ilog2 (real n)"
  proof (rule ccontr)
    assume "\<not> 0 \<le> ilog2 (real n)"
    then have "ilog2 (real n) + 1 \<le> 0" by simp
    then have "(2::real) powi (ilog2 (real n) + 1) \<le> 2 powi 0"
      by (intro power_int_increasing) simp_all
    with ilog2_bounds [OF pos] have "real n < 1" by simp
    with False show False by simp
  qed
  define k where "k = nat (52 - ilog2 (real n))"
  have e: "expo (real n) = - int k" using ub lb by (simp add: expo_def k_def)
  have "real n / 2 powi expo (real n) = real n * 2 ^ k"
    unfolding e by (simp only: power_int_minus power_int_of_nat) (simp add: field_simps)
  also have "\<dots> = of_int (int n * 2 ^ k)" by simp
  finally show ?thesis by (rule fl_exact [OF pos])
qed simp


section \<open>The length list of a bundle\<close>

lemma sort_desc_sorted: "sorted_wrt (\<ge>) (sort_desc ls)"
  by (simp add: sort_desc_def sorted_wrt_rev)

lemma sort_desc_mset [simp]: "mset (sort_desc ls) = mset ls"
  by (simp add: sort_desc_def)

lemma sort_desc_sum [simp]: "sum_list (sort_desc ls) = sum_list ls"
proof -
  have "sum_mset (mset (sort_desc ls)) = sum_mset (mset ls)" by simp
  then show ?thesis by (simp only: sum_mset_sum_list)
qed

lemma sort_desc_length [simp]: "length (sort_desc ls) = length ls"
  by (simp add: sort_desc_def)

lemma stats_lengths:
  "map_of (calculate_stats e f seqs) ''lengths'' = Some (PList (map int (seq_lengths seqs)))"
  by (simp add: calculate_stats_def Let_def)

lemma stats_total_length:
  "map_of (calculate_stats e f seqs) ''total_length''
     = Some (PInt (int (sum_list (seq_lengths seqs))))"
  by (simp add: calculate_stats_def Let_def)


text \<open>
  Claim C4. In every computed bundle the \<open>lengths\<close> entry is the list of record lengths
  sorted in descending order (the same multiset as the lengths of the records), and the
  \<open>total_length\<close> entry is exactly the sum of that list, which is also the sum of the record
  lengths.
\<close>

theorem C4_lengths_sorted_and_total:
  "map_of (calculate_stats e f seqs) ''lengths'' = Some (PList (map int (seq_lengths seqs)))
   \<and> sorted_wrt (\<ge>) (seq_lengths seqs)
   \<and> mset (seq_lengths seqs) = mset (map (\<lambda>r. length (seq r)) seqs)
   \<and> map_of (calculate_stats e f seqs) ''total_length''
       = Some (PInt (int (sum_list (seq_lengths seqs))))
   \<and> sum_list (seq_lengths seqs) = sum_list (map (\<lambda>r. length (seq r)) seqs)"
  by (simp add: stats_lengths stats_total_length seq_lengths_def sort_desc_sorted)

section \<open>The threshold walk\<close>

lemma lx_loop_sound:
  "lx_loop t c i ls = Some k \<Longrightarrow>
     i \<le> k \<and> k - i < length ls \<and> nx_loop t c ls = Some (ls ! (k - i))
     \<and> t \<le> real (c + sum_list (take (Suc (k - i)) ls))
     \<and> (\<forall>j<k - i. real (c + sum_list (take (Suc j) ls)) < t)"
proof (induction ls arbitrary: c i)
  case Nil
  then show ?case by simp
next
  case (Cons l ls)
  show ?case
  proof (cases "t \<le> real (c + l)")
    case True
    with Cons.prems have "k = i" by (simp add: Let_def)
    with True show ?thesis by (simp add: Let_def)
  next
    case False
    with Cons.prems have rec: "lx_loop t (c + l) (Suc i) ls = Some k" by (simp add: Let_def)
    from Cons.IH [OF rec]
    have ik: "Suc i \<le> k" and len: "k - Suc i < length ls"
      and nx: "nx_loop t (c + l) ls = Some (ls ! (k - Suc i))"
      and hit: "t \<le> real (c + l + sum_list (take (Suc (k - Suc i)) ls))"
      and miss: "\<forall>j<k - Suc i. real (c + l + sum_list (take (Suc j) ls)) < t"
      by simp_all
    from ik have ki: "k - i = Suc (k - Suc i)" by simp
    have m: "\<forall>j<k - i. real (c + sum_list (take (Suc j) (l # ls))) < t"
    proof (intro allI impI)
      fix j assume j: "j < k - i"
      show "real (c + sum_list (take (Suc j) (l # ls))) < t"
      proof (cases j)
        case 0
        with False show ?thesis by simp
      next
        case (Suc j')
        with j ki have "j' < k - Suc i" by simp
        with miss have "real (c + l + sum_list (take (Suc j') ls)) < t" by simp
        with Suc show ?thesis by (simp add: add.assoc)
      qed
    qed
    show ?thesis
      using ik len nx hit m False unfolding ki by (simp add: Let_def add.assoc)
  qed
qed

lemma lx_loop_none:
  "lx_loop t c i ls = None \<longleftrightarrow> (\<forall>j<length ls. real (c + sum_list (take (Suc j) ls)) < t)"
proof (induction ls arbitrary: c i)
  case Nil
  then show ?case by simp
next
  case (Cons l ls)
  show ?case
  proof (cases "t \<le> real (c + l)")
    case True
    then have "\<not> real (c + sum_list (take (Suc 0) (l # ls))) < t" by simp
    then have "\<not> (\<forall>j<length (l # ls). real (c + sum_list (take (Suc j) (l # ls))) < t)"
      by (metis length_Cons zero_less_Suc)
    with True show ?thesis by (simp add: Let_def)
  next
    case False
    have "(\<forall>j<length (l # ls). real (c + sum_list (take (Suc j) (l # ls))) < t)
          \<longleftrightarrow> (\<forall>j<length ls. real (c + l + sum_list (take (Suc j) ls)) < t)"
      (is "?A \<longleftrightarrow> ?B")
    proof
      assume a: ?A
      show ?B
      proof (intro allI impI)
        fix j assume "j < length ls"
        then have "Suc j < length (l # ls)" by simp
        with a have "real (c + sum_list (take (Suc (Suc j)) (l # ls))) < t" by blast
        then show "real (c + l + sum_list (take (Suc j) ls)) < t" by (simp add: add.assoc)
      qed
    next
      assume b: ?B
      show ?A
      proof (intro allI impI)
        fix j assume j: "j < length (l # ls)"
        show "real (c + sum_list (take (Suc j) (l # ls))) < t"
        proof (cases j)
          case 0
          with False show ?thesis by simp
        next
          case (Suc j')
          with j have "j' < length ls" by simp
          with b have "real (c + l + sum_list (take (Suc j') ls)) < t" by blast
          with Suc show ?thesis by (simp add: add.assoc)
        qed
      qed
    qed
    with False Cons.IH [where c = "c + l" and i = "Suc i"] show ?thesis by (simp add: Let_def)
  qed
qed

lemma nx_loop_none: "nx_loop t c ls = None \<longleftrightarrow> lx_loop t c i ls = None"
  by (induction ls arbitrary: c i) (simp_all add: Let_def)


lemma nx_loop_mem: "nx_loop t c ls = Some v \<Longrightarrow> v \<in> set ls"
  by (induction ls arbitrary: c) (auto simp add: Let_def split: if_splits)

lemma lx_loop_ge: "lx_loop t c i ls = Some k \<Longrightarrow> i \<le> k \<and> k < i + length ls"
  by (induction ls arbitrary: c i) (fastforce simp add: Let_def split: if_splits)+

lemma lx_loop_mono:
  assumes "t \<le> t'"
  shows "(case lx_loop t c i ls of Some k \<Rightarrow> k | None \<Rightarrow> i + length ls)
           \<le> (case lx_loop t' c i ls of Some k \<Rightarrow> k | None \<Rightarrow> i + length ls)"
proof (induction ls arbitrary: c i)
  case Nil
  show ?case by simp
next
  case (Cons l ls)
  consider "t' \<le> real (c + l)" | "t \<le> real (c + l)" "\<not> t' \<le> real (c + l)" | "\<not> t \<le> real (c + l)"
    by blast
  then show ?case
  proof cases
    case 1
    with assms have "t \<le> real (c + l)" by linarith
    with 1 show ?thesis by (simp add: Let_def)
  next
    case 2
    have "i \<le> (case lx_loop t' (c + l) (Suc i) ls of Some k \<Rightarrow> k | None \<Rightarrow> Suc i + length ls)"
    proof (cases "lx_loop t' (c + l) (Suc i) ls")
      case None
      then show ?thesis by simp
    next
      case (Some k)
      with lx_loop_ge [OF Some] show ?thesis by simp
    qed
    with 2 show ?thesis by (simp add: Let_def split: option.splits)
  next
    case 3
    with assms have "\<not> t' \<le> real (c + l)" by linarith
    with 3 Cons.IH [where c = "c + l" and i = "Suc i"] show ?thesis
      by (simp add: Let_def split: option.splits)
  qed
qed

lemma nx_loop_mono:
  assumes "t \<le> t'"
  shows "sorted_wrt (\<ge>) ls \<Longrightarrow>
         (case nx_loop t' c ls of Some v \<Rightarrow> v | None \<Rightarrow> 0)
           \<le> (case nx_loop t c ls of Some v \<Rightarrow> v | None \<Rightarrow> 0)"
proof (induction ls arbitrary: c)
  case Nil
  show ?case by simp
next
  case (Cons l ls)
  then have sorted: "sorted_wrt (\<ge>) ls" and top: "\<forall>v\<in>set ls. v \<le> l" by simp_all
  consider "t' \<le> real (c + l)" | "t \<le> real (c + l)" "\<not> t' \<le> real (c + l)" | "\<not> t \<le> real (c + l)"
    by blast
  then show ?case
  proof cases
    case 1
    with assms have "t \<le> real (c + l)" by linarith
    with 1 show ?thesis by (simp add: Let_def)
  next
    case 2
    have "(case nx_loop t' (c + l) ls of Some v \<Rightarrow> v | None \<Rightarrow> 0) \<le> l"
    proof (cases "nx_loop t' (c + l) ls")
      case None
      then show ?thesis by simp
    next
      case (Some v)
      with nx_loop_mem [OF Some] top show ?thesis by simp
    qed
    with 2 show ?thesis by (simp add: Let_def)
  next
    case 3
    with assms have "\<not> t' \<le> real (c + l)" by linarith
    with 3 Cons.IH [OF sorted, of "c + l"] show ?thesis by (simp add: Let_def)
  qed
qed

lemma fl_one [simp]: "fl 1 = 1"
  using fl_of_nat [of 1] by simp

lemma py_float_exact: "n < 2 ^ 53 \<Longrightarrow> py_float n = real n"
  by (simp add: py_float_def fl_of_nat)

lemma py_float_nonneg: "0 \<le> py_float n"
  by (simp add: py_float_def fl_nonneg)

lemma nx_target_mono: "x \<le> y \<Longrightarrow> nx_target T x \<le> nx_target T y"
  unfolding nx_target_def py_mul_def py_truediv_def
  by (intro fl_mono mult_left_mono py_float_nonneg) (simp add: divide_right_mono)

lemma nx_target_le_total:
  assumes "x \<le> 100" "T < 2 ^ 53"
  shows "nx_target T x \<le> real T"
proof -
  have "fl (x / 100) \<le> fl 1" using assms(1) by (intro fl_mono) simp
  then have "real T * fl (x / 100) \<le> real T * 1" by (intro mult_left_mono) simp_all
  then have "fl (real T * fl (x / 100)) \<le> fl (real T)" by (intro fl_mono) simp
  then show ?thesis
    by (simp add: nx_target_def py_mul_def py_truediv_def py_float_exact [OF assms(2)]
                  fl_of_nat [OF assms(2)])
qed

lemma lx_loop_unreached:
  assumes "lx_loop t 0 1 ls = None"
  shows "(\<forall>k\<in>{1..length ls}. \<not> reaches t ls k) \<and> nx_loop t 0 ls = None"
proof
  from assms have all: "\<forall>j<length ls. real (sum_list (take (Suc j) ls)) < t"
    by (simp add: lx_loop_none)
  show "\<forall>k\<in>{1..length ls}. \<not> reaches t ls k"
  proof
    fix k assume "k \<in> {1..length ls}"
    then have "k - 1 < length ls" "Suc (k - 1) = k" by auto
    with all show "\<not> reaches t ls k"
      unfolding reaches_def by (metis not_le)
  qed
  show "nx_loop t 0 ls = None" using assms nx_loop_none by blast
qed

lemma lx_loop_first_rank:
  assumes "lx_loop t 0 1 ls = Some k"
  shows "first_rank t ls k \<and> nx_loop t 0 ls = Some (ls ! (k - 1))"
proof
  from lx_loop_sound [OF assms]
  have k1: "1 \<le> k" and len: "k - 1 < length ls"
    and hit0: "t \<le> real (0 + sum_list (take (Suc (k - 1)) ls))"
    and miss0: "\<forall>j<k - 1. real (0 + sum_list (take (Suc j) ls)) < t"
    and nx: "nx_loop t 0 ls = Some (ls ! (k - 1))"
    by blast+
  from k1 have sk: "Suc (k - 1) = k" by simp
  from hit0 have hit: "t \<le> real (sum_list (take k ls))"
    unfolding sk by simp
  from miss0 have miss: "\<forall>j<k - 1. real (sum_list (take (Suc j) ls)) < t"
    by simp
  show "first_rank t ls k"
    unfolding first_rank_def reaches_def
  proof (intro conjI ballI)
    show "k \<in> {1..length ls}" using k1 len by simp
    show "t \<le> real (sum_list (take k ls))" by (fact hit)
    fix j assume "j \<in> {1..<k}"
    then have "j - 1 < k - 1" "Suc (j - 1) = j" by auto
    with miss show "\<not> t \<le> real (sum_list (take j ls))"
      by (metis not_le)
  qed
  show "nx_loop t 0 ls = Some (ls ! (k - 1))" by (fact nx)
qed

lemma first_rank_unique: "first_rank t ls k \<Longrightarrow> first_rank t ls k' \<Longrightarrow> k = k'"
proof (rule ccontr)
  assume a: "first_rank t ls k" and b: "first_rank t ls k'" and ne: "k \<noteq> k'"
  then consider "k < k'" | "k' < k" by linarith
  then show False
  proof cases
    case 1
    with a have "k \<in> {1..<k'}" by (simp add: first_rank_def)
    with a b show False by (auto simp add: first_rank_def)
  next
    case 2
    with b have "k' \<in> {1..<k}" by (simp add: first_rank_def)
    with a b show False by (auto simp add: first_rank_def)
  qed
qed

lemma reached_at_end:
  assumes "ls \<noteq> []" "x \<le> 100" "sum_list ls < 2 ^ 53"
  shows "\<exists>k. lx_loop (nx_target (sum_list ls) x) 0 1 ls = Some k"
proof (cases "lx_loop (nx_target (sum_list ls) x) 0 1 ls")
  case None
  have "length ls \<in> {1..length ls}" using assms(1) by (cases ls) simp_all
  with lx_loop_unreached [OF None]
  have "\<not> reaches (nx_target (sum_list ls) x) ls (length ls)" by blast
  moreover have "reaches (nx_target (sum_list ls) x) ls (length ls)"
    using nx_target_le_total [OF assms(2,3)] by (simp add: reaches_def)
  ultimately show ?thesis by contradiction
next
  case (Some k)
  then show ?thesis by blast
qed

lemma calculate_lx_le_length: "calculate_lx ls x \<le> length ls"
proof (cases "lx_loop (nx_target (sum_list ls) x) 0 1 ls")
  case None
  then show ?thesis by (simp add: calculate_lx_def)
next
  case (Some k)
  with lx_loop_ge [OF Some] show ?thesis by (simp add: calculate_lx_def)
qed

lemma calculate_lx_mono:
  assumes "x \<le> y"
  shows "calculate_lx ls x \<le> calculate_lx ls y"
proof -
  have "nx_target (sum_list ls) x \<le> nx_target (sum_list ls) y"
    using assms by (rule nx_target_mono)
  from lx_loop_mono [OF this, where c = 0 and i = 1 and ls = ls]
  have le: "(case lx_loop (nx_target (sum_list ls) x) 0 1 ls of Some k \<Rightarrow> k | None \<Rightarrow> 1 + length ls)
             \<le> (case lx_loop (nx_target (sum_list ls) y) 0 1 ls of Some k \<Rightarrow> k | None \<Rightarrow> 1 + length ls)" .
  show ?thesis
  proof (cases "lx_loop (nx_target (sum_list ls) y) 0 1 ls")
    case None
    then have "calculate_lx ls y = length ls" by (simp add: calculate_lx_def)
    with calculate_lx_le_length [of ls x] show ?thesis by simp
  next
    case (Some k')
    from lx_loop_ge [OF Some] have "k' < 1 + length ls" by simp
    with le Some show ?thesis by (simp add: calculate_lx_def split: option.splits)
  qed
qed

lemma calculate_nx_mono:
  assumes "x \<le> y" "sorted_wrt (\<ge>) ls"
  shows "calculate_nx T ls y \<le> calculate_nx T ls x"
proof -
  have "nx_target T x \<le> nx_target T y"
    using assms(1) by (rule nx_target_mono)
  from nx_loop_mono [OF this assms(2), where c = 0]
  show ?thesis by (simp add: calculate_nx_def)
qed


lemmas double_eval = nx_target_def py_mul_def py_float_def py_truediv_def fl_def expo_def
  ilog2_def flog2.simps rne_def Let_def power_int_minus

lemma sort_desc_empty [simp]: "sort_desc [] = []"
  by (simp add: sort_desc_def)

lemma sort_desc_set [simp]: "set (sort_desc ls) = set ls"
  by (simp add: sort_desc_def)

lemma stats_nx_lx:
  "map_of (calculate_stats e f seqs) ''n50'' = Some (PInt (int (stat_nx (map (\<lambda>r. length (seq r)) seqs) 50)))"
  "map_of (calculate_stats e f seqs) ''n90'' = Some (PInt (int (stat_nx (map (\<lambda>r. length (seq r)) seqs) 90)))"
  "map_of (calculate_stats e f seqs) ''l50'' = Some (PInt (int (stat_lx (map (\<lambda>r. length (seq r)) seqs) 50)))"
  "map_of (calculate_stats e f seqs) ''l90'' = Some (PInt (int (stat_lx (map (\<lambda>r. length (seq r)) seqs) 90)))"
  "map_of (calculate_stats e f seqs) ''num_contigs'' = Some (PInt (int (length seqs)))"
  by (simp_all add: calculate_stats_def Let_def stat_nx_def stat_lx_def seq_lengths_def)

lemma stat_nx_cases:
  "(\<exists>k. first_rank (nx_target (sum_list ls) x) (sort_desc ls) k \<and> stat_nx ls x = sort_desc ls ! (k - 1))
   \<or> (\<forall>k\<in>{1..length ls}. \<not> reaches (nx_target (sum_list ls) x) (sort_desc ls) k) \<and> stat_nx ls x = 0"
proof (cases "lx_loop (nx_target (sum_list ls) x) 0 1 (sort_desc ls)")
  case None
  from lx_loop_unreached [OF None] show ?thesis
    by (simp add: stat_nx_def calculate_nx_def)
next
  case (Some k)
  from lx_loop_first_rank [OF Some] show ?thesis
    by (auto simp add: stat_nx_def calculate_nx_def)
qed

lemma stat_lx_cases:
  "first_rank (nx_target (sum_list ls) x) (sort_desc ls) (stat_lx ls x)
   \<or> (\<forall>k\<in>{1..length ls}. \<not> reaches (nx_target (sum_list ls) x) (sort_desc ls) k) \<and> stat_lx ls x = length ls"
proof (cases "lx_loop (nx_target (sum_list ls) x) 0 1 (sort_desc ls)")
  case None
  from lx_loop_unreached [OF None] None show ?thesis
    by (simp add: stat_lx_def calculate_lx_def)
next
  case (Some k)
  from lx_loop_first_rank [OF Some] Some show ?thesis
    by (simp add: stat_lx_def calculate_lx_def)
qed

lemma stat_reached:
  assumes "ls \<noteq> []" "x \<le> 100" "sum_list ls < 2 ^ 53"
  shows "first_rank (nx_target (sum_list ls) x) (sort_desc ls) (stat_lx ls x)
         \<and> stat_nx ls x = sort_desc ls ! (stat_lx ls x - 1)"
proof -
  have "sort_desc ls \<noteq> []" using assms(1) by (metis length_0_conv sort_desc_length)
  moreover have "sum_list (sort_desc ls) < 2 ^ 53" using assms(3) by simp
  ultimately obtain k where k: "lx_loop (nx_target (sum_list (sort_desc ls)) x) 0 1 (sort_desc ls) = Some k"
    using reached_at_end [OF _ assms(2)] by blast
  then have k': "lx_loop (nx_target (sum_list ls) x) 0 1 (sort_desc ls) = Some k" by simp
  from lx_loop_first_rank [OF k'] k' show ?thesis
    by (simp add: stat_nx_def stat_lx_def calculate_nx_def calculate_lx_def)
qed

lemma example_sorted: "sort_desc [100, 50, 30] = [100, 50, 30]"
  by (simp add: sort_desc_def)

lemma example_targets: "nx_target 180 50 = 90" "nx_target 180 90 = 162"
  by (simp_all add: double_eval)


section \<open>The thresholds of the bundle are exact\<close>

text \<open>
  A number with at most 53 significant bits is a double, and a number within a quarter of the
  last bit above an integer rounds to that integer. Hence for \<open>x = 50\<close> the threshold is
  exactly half the total, and for \<open>x = 90\<close> it lies on the same side of every integer as nine
  tenths of the total, as long as the total is below \<open>2^49\<close>.
\<close>

lemma ilog2_unique:
  assumes "2 powi k \<le> r" "r < 2 powi (k + 1)"
  shows "ilog2 r = k"
proof -
  have pos: "0 < r"
  proof -
    have "(0::real) < 2 powi k" by simp
    with assms(1) show ?thesis by linarith
  qed
  note b = ilog2_bounds [OF pos]
  have "\<not> ilog2 r < k"
  proof
    assume "ilog2 r < k"
    then have "ilog2 r + 1 \<le> k" by simp
    then have "(2::real) powi (ilog2 r + 1) \<le> 2 powi k" by (intro power_int_increasing) simp_all
    with b assms(1) show False by linarith
  qed
  moreover have "\<not> k < ilog2 r"
  proof
    assume "k < ilog2 r"
    then have "k + 1 \<le> ilog2 r" by simp
    then have "(2::real) powi (k + 1) \<le> 2 powi ilog2 r" by (intro power_int_increasing) simp_all
    with b assms(2) show False by linarith
  qed
  ultimately show ?thesis by linarith
qed

lemma fl_dyadic:
  assumes "n < 2 ^ 53" "- 1074 \<le> j"
  shows "fl (real n * 2 powi j) = real n * 2 powi j"
proof (cases "n = 0")
  case False
  let ?r = "real n * 2 powi j"
  have pos: "0 < ?r" using False by simp
  have nlt: "real n < 2 ^ 53" using assms(1)
    by (metis of_nat_less_iff of_nat_numeral of_nat_power)
  have "?r < 2 ^ 53 * 2 powi j" using nlt by (intro mult_strict_right_mono) simp_all
  also have "\<dots> = 2 powi (j + 53)" by (simp add: power_int_add)
  finally have rlt: "?r < 2 powi (j + 53)" .
  have "ilog2 ?r < j + 53"
  proof (rule ccontr)
    assume "\<not> ilog2 ?r < j + 53"
    then have "(2::real) powi (j + 53) \<le> 2 powi ilog2 ?r"
      by (intro power_int_increasing) simp_all
    with ilog2_bounds [OF pos] rlt show False by linarith
  qed
  then have ej: "expo ?r \<le> j" using assms(2) by (simp add: expo_def)
  define e where "e = expo ?r"
  define d where "d = nat (j - e)"
  have jd: "j = e + int d" using ej by (simp add: d_def e_def)
  have pj: "(2::real) powi j = 2 powi e * 2 ^ d"
    by (subst jd, subst power_int_add) simp_all
  have "real n * 2 powi j / 2 powi e = real n * 2 ^ d"
    unfolding pj by simp
  also have "\<dots> = of_int (int n * 2 ^ d)" by simp
  finally have "?r / 2 powi expo ?r = of_int (int n * 2 ^ d)" unfolding e_def .
  then show ?thesis by (rule fl_exact [OF pos])
qed simp

lemma rne_near:
  assumes "0 \<le> f" "f < 1 / 2"
  shows "rne (of_int m + f) = m"
proof -
  have "\<lfloor>of_int m + f\<rfloor> = m" using assms by linarith
  then show ?thesis using assms by (simp add: rne_def Let_def)
qed

lemma fl_near_nat:
  assumes "0 < d" "d < 2 ^ 53" "real d \<le> r" "(r - real d) * 2 ^ 54 < real d"
  shows "fl r = real d"
proof -
  define k where "k = ilog2 (real d)"
  have dpos: "0 < real d" using assms(1) by simp
  note b = ilog2_bounds [OF dpos, folded k_def]
  have dlt: "real d < 2 ^ 53" using assms(2)
    by (metis of_nat_less_iff of_nat_numeral of_nat_power)
  have k0: "0 \<le> k"
  proof (rule ccontr)
    assume "\<not> 0 \<le> k"
    then have "k + 1 \<le> 0" by simp
    then have "(2::real) powi (k + 1) \<le> 2 powi 0" by (intro power_int_increasing) simp_all
    with b have "real d < 1" by simp
    with assms(1) show False by simp
  qed
  have k52: "k \<le> 52"
  proof (rule ccontr)
    assume "\<not> k \<le> 52"
    then have "53 \<le> k" by simp
    then have "(2::real) powi 53 \<le> 2 powi k" by (intro power_int_increasing) simp_all
    with b dlt show False by simp
  qed
  define u where "u = nat (k + 1)"
  have ku: "k + 1 = int u" using k0 by (simp add: u_def)
  have "real d < 2 ^ u" using b unfolding ku by simp
  then have "d < 2 ^ u" by (metis of_nat_less_iff of_nat_numeral of_nat_power)
  then have "Suc d \<le> 2 ^ u" by simp
  then have "real (Suc d) \<le> real (2 ^ u)" unfolding of_nat_le_iff .
  then have d1: "real d + 1 \<le> 2 powi (k + 1)" unfolding ku by simp
  have small: "r - real d < real d / 2 ^ 54" using assms(4) by (simp add: field_simps)
  have "real d / 2 ^ 54 < 1 / 2" using dlt by simp
  with small have "r < real d + 1 / 2" by linarith
  with d1 have rhi: "r < 2 powi (k + 1)" by linarith
  have rlo: "2 powi k \<le> r" using b assms(3) by linarith
  have rk: "ilog2 r = k" using rlo rhi by (rule ilog2_unique)
  have rpos: "0 < r" using dpos assms(3) by linarith
  define w where "w = nat (52 - k)"
  have e: "expo r = - int w" using rk k52 k0 by (simp add: expo_def w_def)
  have pw: "(2::real) powi expo r = 1 / 2 ^ w"
    unfolding e by (simp only: power_int_minus_divide power_int_of_nat)
  have sc: "r / 2 powi expo r = of_int (int d * 2 ^ w) + (r - real d) * 2 ^ w"
    unfolding pw by (simp add: algebra_simps)
  have kw: "k + int w = 52" using k52 by (simp add: w_def)
  have "(2::real) powi (k + 1) * 2 ^ w = 2 powi (k + 1) * 2 powi (int w)" by simp
  also have "\<dots> = 2 powi (k + 1 + int w)" by (simp add: power_int_add)
  also have "\<dots> = 2 ^ 53" using kw by (simp add: add.commute add.left_commute)
  finally have p53: "(2::real) powi (k + 1) * 2 ^ w = 2 ^ 53" .
  have "real d * 2 ^ w < 2 powi (k + 1) * 2 ^ w"
    using b by (intro mult_strict_right_mono) simp_all
  then have dw: "real d * 2 ^ w < 2 ^ 53" using p53 by simp
  have "(r - real d) * 2 ^ w < real d / 2 ^ 54 * 2 ^ w"
    using small by (intro mult_strict_right_mono) simp_all
  also have "\<dots> = (real d * 2 ^ w) / 2 ^ 54" by simp
  also have "\<dots> < 2 ^ 53 / 2 ^ 54" using dw by (intro divide_strict_right_mono) simp_all
  also have "\<dots> = (1::real) / 2" by simp
  finally have f2: "(r - real d) * 2 ^ w < 1 / 2" .
  have f1: "0 \<le> (r - real d) * 2 ^ w" using assms(3) by simp
  have "rne (r / 2 powi expo r) = int d * 2 ^ w"
    unfolding sc using f1 f2 by (rule rne_near)
  then have "fl r = of_int (int d * 2 ^ w) * 2 powi expo r"
    by (simp add: fl_pos [OF rpos])
  also have "\<dots> = real d" unfolding pw by simp
  finally show ?thesis .
qed


lemma quotient_50: "py_truediv 50 100 = 1 / 2"
  by (simp add: double_eval)

lemma quotient_90: "py_truediv 90 100 = 8106479329266893 / 2 ^ 53"
  by (simp add: double_eval)

lemma nx_target_50:
  assumes "T < 2 ^ 53"
  shows "nx_target T 50 = real T / 2"
proof -
  have "fl (real T * 2 powi (- 1)) = real T * 2 powi (- 1)"
    using assms by (intro fl_dyadic) simp_all
  then have "fl (real T * (1 / 2)) = real T / 2" by (simp add: power_int_minus)
  then show ?thesis
    by (simp add: nx_target_def py_mul_def quotient_50 py_float_exact [OF assms])
qed

lemma nx_target_90:
  assumes "T < 2 ^ 49"
  shows "nx_target T 90 \<le> real c \<longleftrightarrow> 9 * T \<le> 10 * c"
proof -
  have T53: "T < 2 ^ 53"
  proof -
    have "(2::nat) ^ 49 \<le> 2 ^ 53" by simp
    with assms show ?thesis by linarith
  qed
  have Tr: "real T < 2 ^ 49" using assms
    by (metis of_nat_less_iff of_nat_numeral of_nat_power)
  define r where "r = real T * (8106479329266893 / 2 ^ 53)"
  have tgt: "nx_target T 90 = fl r"
    by (simp add: nx_target_def py_mul_def quotient_90 py_float_exact [OF T53] r_def)
  have r_eq: "r = 9 * real T / 10 + real T / (5 * 2 ^ 53)"
    by (simp add: r_def field_simps)
  have r_le_T: "r \<le> real T" unfolding r_def by (simp add: mult_left_le)
  show ?thesis
  proof
    assume le: "nx_target T 90 \<le> real c"
    show "9 * T \<le> 10 * c"
    proof (rule ccontr)
      assume "\<not> 9 * T \<le> 10 * c"
      then have "10 * c + 1 \<le> 9 * T" by simp
      then have "real (10 * c + 1) \<le> real (9 * T)" unfolding of_nat_le_iff .
      then have c9: "real c + 1 / 10 \<le> 9 * real T / 10" by simp
      then have cT: "real c < real T" by linarith
      with Tr have "real c < 2 ^ 49" by linarith
      then have "real (16 * c + 1) < real (2 ^ 53)" by simp
      then have c16: "16 * c + 1 < 2 ^ 53" unfolding of_nat_less_iff .
      have dy: "fl (real (16 * c + 1) * 2 powi (- 4)) = real (16 * c + 1) * 2 powi (- 4)"
        using c16 by (intro fl_dyadic) simp_all
      have sx: "real (16 * c + 1) * 2 powi (- 4) = real c + 1 / 16"
        by (simp add: power_int_minus field_simps)
      from dy have ex: "fl (real c + 1 / 16) = real c + 1 / 16" unfolding sx .
      have "0 \<le> real T / (5 * 2 ^ 53)" by simp
      with c9 r_eq have "real c + 1 / 16 \<le> r" by linarith
      then have "fl (real c + 1 / 16) \<le> fl r" by (rule fl_mono)
      with ex tgt le show False by linarith
    qed
  next
    assume le: "9 * T \<le> 10 * c"
    show "nx_target T 90 \<le> real c"
    proof (cases "9 * T = 10 * c")
      case True
      show ?thesis
      proof (cases "T = 0")
        case True
        then have "r = 0" by (simp add: r_def)
        then show ?thesis unfolding tgt by simp
      next
        case False
        from \<open>9 * T = 10 * c\<close> have "real (9 * T) = real (10 * c)" by simp
        then have cr: "real c = 9 * real T / 10" by simp
        have cpos: "0 < c" using False \<open>9 * T = 10 * c\<close> by (cases c) simp_all
        have "real c < real T" using cr False by simp
        with Tr have "real c < real (2 ^ 53)" by simp
        then have c53: "c < 2 ^ 53" unfolding of_nat_less_iff .
        have d1: "real c \<le> r" unfolding r_eq cr by simp
        have "(r - real c) * 2 ^ 54 = 2 * real T / 5" unfolding r_eq cr by simp
        also have "\<dots> < real c" unfolding cr using False by simp
        finally have d2: "(r - real c) * 2 ^ 54 < real c" .
        have "fl r = real c" using cpos c53 d1 d2 by (rule fl_near_nat)
        then show ?thesis by (simp add: tgt)
      qed
    next
      case False
      with le have "9 * T + 1 \<le> 10 * c" by simp
      then have "real (9 * T + 1) \<le> real (10 * c)" unfolding of_nat_le_iff .
      then have c9: "9 * real T / 10 + 1 / 10 \<le> real c" by simp
      have "real T / (5 * 2 ^ 53) \<le> 1 / 10" using Tr by simp
      with c9 r_eq have rc: "r \<le> real c" by linarith
      define m where "m = min c T"
      have m53: "m < 2 ^ 53" using T53 by (simp add: m_def min_def)
      have "r \<le> real m" using rc r_le_T by (simp add: m_def min_def)
      then have "fl r \<le> fl (real m)" by (rule fl_mono)
      also have "\<dots> = real m" using m53 by (rule fl_of_nat)
      also have "\<dots> \<le> real c" by (simp add: m_def)
      finally show ?thesis by (simp add: tgt)
    qed
  qed
qed

lemma bundle_targets_exact:
  assumes "T < 2 ^ 49" "x = 50 \<or> x = 90"
  shows "nx_target T x \<le> real c \<longleftrightarrow> real T * x / 100 \<le> real c"
proof -
  have T53: "T < 2 ^ 53"
  proof -
    have "(2::nat) ^ 49 \<le> 2 ^ 53" by simp
    with assms(1) show ?thesis by linarith
  qed
  from assms(2) show ?thesis
  proof
    assume "x = 50"
    then show ?thesis by (simp add: nx_target_50 [OF T53])
  next
    assume x: "x = 90"
    have "(real T * 90 / 100 \<le> real c) = (real (9 * T) \<le> real (10 * c))"
      by (simp add: mult.commute)
    also have "\<dots> = (9 * T \<le> 10 * c)" unfolding of_nat_le_iff ..
    finally show ?thesis unfolding x using nx_target_90 [OF assms(1), of c] by simp
  qed
qed

lemma reaches_exact:
  assumes "T < 2 ^ 49" "x = 50 \<or> x = 90"
  shows "reaches (nx_target T x) ls k = reaches (real T * x / 100) ls k"
  unfolding reaches_def by (rule bundle_targets_exact [OF assms])

lemma first_rank_exact:
  assumes "T < 2 ^ 49" "x = 50 \<or> x = 90"
  shows "first_rank (nx_target T x) ls k = first_rank (real T * x / 100) ls k"
  unfolding first_rank_def reaches_exact [OF assms] ..

lemma stat_reached_exact:
  assumes "ls \<noteq> []" "x = 50 \<or> x = 90" "sum_list ls < 2 ^ 49"
  shows "first_rank (real (sum_list ls) * x / 100) (sort_desc ls) (stat_lx ls x)
         \<and> stat_nx ls x = sort_desc ls ! (stat_lx ls x - 1)"
proof -
  have "(2::nat) ^ 49 \<le> 2 ^ 53" by simp
  with assms(3) have s53: "sum_list ls < 2 ^ 53" by linarith
  have "x \<le> 100" using assms(2) by auto
  from stat_reached [OF assms(1) this s53] show ?thesis
    by (simp add: first_rank_exact [OF assms(3,2)])
qed

section \<open>Nx and Lx\<close>

text \<open>
  For \<open>x = 50\<close> and \<open>x = 90\<close>, the two values the bundle is computed with, and a non-empty
  list of record lengths with total below \<open>2^49\<close>, Lx is the first rank at which the
  cumulative sum over the descending lengths reaches or exceeds the exact product
  \<open>total_length * x / 100\<close>, and Nx is the length of the record at that rank
  (\<open>stat_reached_exact\<close> above). The empty list has Nx 0, and the lengths 100, 50, 30 have
  N50 = 100, N90 = 30, L50 = 1 and L90 = 3.
\<close>

lemma stat_nx_empty: "stat_nx [] x = 0"
  by (simp add: stat_nx_def calculate_nx_def)

lemma example_statistics:
  "stat_nx [100, 50, 30] 50 = 100" "stat_nx [100, 50, 30] 90 = 30"
  "stat_lx [100, 50, 30] 50 = 1" "stat_lx [100, 50, 30] 90 = 3"
  by (simp_all add: stat_nx_def stat_lx_def example_sorted calculate_nx_def calculate_lx_def
                    example_targets)

text \<open>
  Claim C1. Nx is to be the length of the record at which the cumulative sum over the
  descending lengths first reaches or exceeds \<open>total_length * x / 100\<close>. The code misses
  this for the lengths 55 and 45 at \<open>x = 55\<close>: the first record alone reaches 55 percent of
  the total 100, so Nx is to be 55, but the float product \<^verbatim>\<open>100 * (55 / 100)\<close> is the double
  just above 55, printed \<^verbatim>\<open>55.00000000000001\<close>, the walk passes the first record and
  \<^verbatim>\<open>calculate_nx\<close> returns 45.
\<close>

theorem C1_nx_misses_exact_threshold:
  "sort_desc [55, 45] = [55, 45]
   \<and> reaches (real (sum_list [55, 45]) * 55 / 100) (sort_desc [55, 45]) 1
   \<and> nx_target (sum_list [55, 45]) 55 = 55 + 1 / 2 ^ 47
   \<and> calculate_nx (sum_list [55, 45]) [55, 45] 55 = 45
   \<and> stat_nx [55, 45] 55 = 45"
  by (simp add: sort_desc_def reaches_def stat_nx_def calculate_nx_def double_eval)

text \<open>
  Claim C2. Lx is to be the rank, counted from one, at which the cumulative sum over the
  descending lengths first reaches or exceeds \<open>total_length * x / 100\<close>, the number of
  contigs needed to reach \<open>x\<close> percent of the total length. The code misses this for the
  lengths 55 and 45 at \<open>x = 55\<close>: one contig reaches 55 percent of the total 100, but the
  cumulative sum 55 is compared with the double \<^verbatim>\<open>55.00000000000001\<close> and \<^verbatim>\<open>_calculate_lx\<close>
  returns 2.
\<close>

theorem C2_lx_misses_exact_threshold:
  "sort_desc [55, 45] = [55, 45]
   \<and> reaches (real (sum_list [55, 45]) * 55 / 100) (sort_desc [55, 45]) 1
   \<and> nx_target (sum_list [55, 45]) 55 = 55 + 1 / 2 ^ 47
   \<and> calculate_lx [55, 45] 55 = 2
   \<and> stat_lx [55, 45] 55 = 2"
  by (simp add: sort_desc_def reaches_def stat_lx_def calculate_lx_def double_eval)

text \<open>
  Claim C3. As \<open>x\<close> increases, Nx does not increase and Lx does not decrease; in every
  bundle \<open>n90 \<le> n50\<close> and \<open>l50 \<le> l90 \<le> num_contigs\<close>. Rounding to the nearest double is
  monotone, so this holds for the thresholds the code computes.
\<close>

theorem C3_nx_lx_monotone:
  "(x \<le> y \<longrightarrow> stat_nx ls y \<le> stat_nx ls x \<and> stat_lx ls x \<le> stat_lx ls y)
   \<and> (\<exists>n50 n90 l50 l90.
         map_of (calculate_stats e f seqs) ''n50'' = Some (PInt (int n50))
       \<and> map_of (calculate_stats e f seqs) ''n90'' = Some (PInt (int n90))
       \<and> map_of (calculate_stats e f seqs) ''l50'' = Some (PInt (int l50))
       \<and> map_of (calculate_stats e f seqs) ''l90'' = Some (PInt (int l90))
       \<and> map_of (calculate_stats e f seqs) ''num_contigs'' = Some (PInt (int (length seqs)))
       \<and> n90 \<le> n50 \<and> l50 \<le> l90 \<and> l90 \<le> length seqs)"
proof (intro conjI impI)
  assume "x \<le> y"
  then show "stat_nx ls y \<le> stat_nx ls x"
    unfolding stat_nx_def by (rule calculate_nx_mono) (rule sort_desc_sorted)
next
  assume "x \<le> y"
  then show "stat_lx ls x \<le> stat_lx ls y"
    unfolding stat_lx_def by (rule calculate_lx_mono)
next
  let ?ls = "map (\<lambda>r. length (seq r)) seqs"
  have a: "stat_nx ?ls 90 \<le> stat_nx ?ls 50"
    unfolding stat_nx_def by (rule calculate_nx_mono) (simp_all add: sort_desc_sorted)
  have b: "stat_lx ?ls 50 \<le> stat_lx ?ls 90"
    unfolding stat_lx_def by (rule calculate_lx_mono) simp
  have c: "stat_lx ?ls 90 \<le> length seqs"
    using calculate_lx_le_length [of "sort_desc ?ls" 90] by (simp add: stat_lx_def)
  show "\<exists>n50 n90 l50 l90.
         map_of (calculate_stats e f seqs) ''n50'' = Some (PInt (int n50))
       \<and> map_of (calculate_stats e f seqs) ''n90'' = Some (PInt (int n90))
       \<and> map_of (calculate_stats e f seqs) ''l50'' = Some (PInt (int l50))
       \<and> map_of (calculate_stats e f seqs) ''l90'' = Some (PInt (int l90))
       \<and> map_of (calculate_stats e f seqs) ''num_contigs'' = Some (PInt (int (length seqs)))
       \<and> n90 \<le> n50 \<and> l50 \<le> l90 \<and> l90 \<le> length seqs"
    using a b c stats_nx_lx [of e f seqs] by blast
qed

text \<open>Claim C3 at the lengths 100, 50, 30 with \<open>x = 50\<close> and \<open>y = 90\<close>.\<close>

theorem C3_monotone_witness:
  "(50::real) \<le> 90 \<and> stat_nx [100, 50, 30] 90 \<le> stat_nx [100, 50, 30] 50
   \<and> stat_lx [100, 50, 30] 50 \<le> stat_lx [100, 50, 30] 90"
  using C3_nx_lx_monotone [of 50 90 "[100, 50, 30]"] by simp

text \<open>
  Claim C9. For a non-empty list of record lengths and \<open>x \<le> 100\<close>, Lx is a rank of the
  list, Nx is the element of the descending lengths at rank Lx, and so Nx is one of the
  record lengths, never a made-up value. The lengths are those of records held in memory:
  their total is below \<open>2^53\<close>, where the conversion of the total to float is exact.
\<close>

theorem C9_nx_is_record_at_rank_lx:
  "ls \<noteq> [] \<and> x \<le> 100 \<and> sum_list ls < 2 ^ 53 \<longrightarrow>
     stat_lx ls x \<in> {1..length ls}
     \<and> stat_nx ls x = sort_desc ls ! (stat_lx ls x - 1)
     \<and> stat_nx ls x \<in> set ls"
proof
  assume a: "ls \<noteq> [] \<and> x \<le> 100 \<and> sum_list ls < 2 ^ 53"
  from stat_reached [of ls x] a
  have fr: "first_rank (nx_target (sum_list ls) x) (sort_desc ls) (stat_lx ls x)"
    and eq: "stat_nx ls x = sort_desc ls ! (stat_lx ls x - 1)" by blast+
  from fr have rng: "stat_lx ls x \<in> {1..length ls}" by (simp add: first_rank_def)
  then have "stat_lx ls x - 1 < length (sort_desc ls)" by auto
  then have "sort_desc ls ! (stat_lx ls x - 1) \<in> set (sort_desc ls)" by (rule nth_mem)
  with eq rng show "stat_lx ls x \<in> {1..length ls}
     \<and> stat_nx ls x = sort_desc ls ! (stat_lx ls x - 1)
     \<and> stat_nx ls x \<in> set ls" by simp
qed

text \<open>Claim C9 at the lengths 100, 50, 30 and \<open>x = 90\<close>.\<close>

theorem C9_nx_rank_witness:
  "[100, 50, 30] \<noteq> ([]::nat list) \<and> (90::real) \<le> 100 \<and> sum_list [100, 50, 30::nat] < 2 ^ 53
   \<and> stat_nx [100, 50, 30] 90 = sort_desc [100, 50, 30] ! (stat_lx [100, 50, 30] 90 - 1)
   \<and> stat_nx [100, 50, 30] 90 \<in> set [100, 50, 30]"
  using C9_nx_is_record_at_rank_lx [of "[100, 50, 30]" 90] by auto

section \<open>Composition\<close>

lemma count_filter: "count_list s c = length (filter (\<lambda>a. a = c) s)"
  by (induction s) simp_all

lemma gc_count_one:
  "count_list s CHR ''G'' + count_list s CHR ''C'' + count_list s CHR ''g'' + count_list s CHR ''c''
     = length (filter is_gc s)"
  by (induction s) (auto simp add: is_gc_def)

lemma n_count_one:
  "count_list s CHR ''N'' + count_list s CHR ''n'' = length (filter is_n s)"
  by (induction s) (auto simp add: is_n_def)

lemma total_gc_filter: "total_gc seqs = length (filter is_gc (residues seqs))"
  by (induction seqs) (simp_all add: total_gc_def residues_def gc_count_one)

lemma total_n_filter: "total_n seqs = length (filter is_n (residues seqs))"
  by (induction seqs) (simp_all add: total_n_def residues_def n_count_one)

lemma total_length_residues:
  "sum_list (seq_lengths seqs) = length (residues seqs)"
  by (induction seqs) (simp_all add: seq_lengths_def residues_def)

lemma stats_content:
  "map_of (calculate_stats e f seqs) ''gc_content''
     = Some (percent (total_gc seqs) (sum_list (seq_lengths seqs)))"
  "map_of (calculate_stats e f seqs) ''n_content''
     = Some (percent (total_n seqs) (sum_list (seq_lengths seqs)))"
  by (simp_all add: calculate_stats_def Let_def)

lemma swapcase_values:
  "swapcase CHR ''G'' = CHR ''g''" "swapcase CHR ''g'' = CHR ''G''"
  "swapcase CHR ''C'' = CHR ''c''" "swapcase CHR ''c'' = CHR ''C''"
  by code_simp+

lemma swapcase_involution: "swapcase (swapcase c) = c"
proof -
  have b: "of_char c < (256::nat)" by simp
  show ?thesis
    using b by (auto simp add: swapcase_def Let_def)
qed

lemma swapcase_gc: "is_gc (swapcase c) = is_gc c"
  by (metis is_gc_def swapcase_involution swapcase_values)

lemma variant_gc:
  "list_all2 (\<lambda>a b. b = a \<or> b = swapcase a) s t \<Longrightarrow>
     length (filter is_gc t) = length (filter is_gc s)"
  by (induction rule: list_all2_induct) (auto simp add: swapcase_gc)

lemma variant_total_gc: "list_all2 case_variant seqs seqs' \<Longrightarrow> total_gc seqs' = total_gc seqs"
proof (induction rule: list_all2_induct)
  case Nil
  show ?case by simp
next
  case (Cons r rs r' rs')
  from Cons.hyps(1) have "length (filter is_gc (seq r')) = length (filter is_gc (seq r))"
    unfolding case_variant_def by (blast intro: variant_gc)
  with Cons.IH show ?case by (simp add: total_gc_filter residues_def)
qed

lemma variant_total_length:
  "list_all2 case_variant seqs seqs' \<Longrightarrow>
     sum_list (seq_lengths seqs') = sum_list (seq_lengths seqs)"
proof (induction rule: list_all2_induct)
  case Nil
  show ?case by simp
next
  case (Cons r rs r' rs')
  from Cons.hyps(1) have "length (seq r') = length (seq r)"
    unfolding case_variant_def by (auto dest: list_all2_lengthD)
  with Cons.IH show ?case by (simp add: total_length_residues residues_def)
qed

lemma percent_pos:
  "0 < t \<Longrightarrow> percent c t = PFloat (py_mul (py_truediv (real c) (real t)) 100)"
  by (simp add: percent_def)

lemma residues_append [simp]: "residues (xs @ ys) = residues xs @ residues ys"
  by (simp add: residues_def)

lemma residues_Cons [simp]: "residues (r # rs) = seq r @ residues rs"
  by (simp add: residues_def)

lemma residues_Nil [simp]: "residues [] = []"
  by (simp add: residues_def)

lemma aatt_residues:
  "\<forall>r\<in>set rs. seq r = ''AATT'' \<Longrightarrow>
     filter is_gc (residues rs) = [] \<and> length (residues rs) = 4 * length rs"
  by (induction rs) (simp_all add: is_gc_def)

text \<open>
  Claim C5. \<open>total_length\<close> is the number of all residue characters. When it is positive,
  \<open>gc_content\<close> is the float \<^verbatim>\<open>(count / total_length) * 100\<close> where \<open>count\<close> is the number
  of characters G, C, g, c over all records, and \<open>n_content\<close> is the same with the number of
  characters N, n; both operations are Python's float division and product. When
  \<open>total_length\<close> is 0 both are the integer 0. A character that is none of G, C, N in
  either case adds one to \<open>total_length\<close> and nothing to the two counts. One record
  \<open>GGCC\<close> among records \<open>AATT\<close> gives \<^verbatim>\<open>(4 / total_length) * 100\<close>.
\<close>

theorem C5_gc_and_n_content:
  "map_of (calculate_stats e f seqs) ''total_length'' = Some (PInt (int (length (residues seqs))))
   \<and> (0 < length (residues seqs) \<longrightarrow>
        map_of (calculate_stats e f seqs) ''gc_content''
          = Some (PFloat (py_mul (py_truediv (real (length (filter is_gc (residues seqs))))
                                             (real (length (residues seqs)))) 100))
      \<and> map_of (calculate_stats e f seqs) ''n_content''
          = Some (PFloat (py_mul (py_truediv (real (length (filter is_n (residues seqs))))
                                             (real (length (residues seqs)))) 100)))
   \<and> (length (residues seqs) = 0 \<longrightarrow>
        map_of (calculate_stats e f seqs) ''gc_content'' = Some (PInt 0)
      \<and> map_of (calculate_stats e f seqs) ''n_content'' = Some (PInt 0))
   \<and> (\<not> is_gc c \<and> \<not> is_n c \<longrightarrow>
        length (residues (pre @ r\<lparr>seq := seq r @ [c]\<rparr> # post))
          = Suc (length (residues (pre @ r # post)))
      \<and> total_gc (pre @ r\<lparr>seq := seq r @ [c]\<rparr> # post) = total_gc (pre @ r # post)
      \<and> total_n (pre @ r\<lparr>seq := seq r @ [c]\<rparr> # post) = total_n (pre @ r # post))
   \<and> (seq g = ''GGCC'' \<and> (\<forall>r\<in>set pre \<union> set post. seq r = ''AATT'') \<longrightarrow>
        map_of (calculate_stats e f (pre @ g # post)) ''gc_content''
          = Some (PFloat (py_mul (py_truediv 4 (real (length (residues (pre @ g # post))))) 100)))"
proof (intro conjI impI)
  show "map_of (calculate_stats e f seqs) ''total_length'' = Some (PInt (int (length (residues seqs))))"
    by (simp add: stats_total_length total_length_residues)
next
  assume "0 < length (residues seqs)"
  then show "map_of (calculate_stats e f seqs) ''gc_content''
          = Some (PFloat (py_mul (py_truediv (real (length (filter is_gc (residues seqs))))
                                             (real (length (residues seqs)))) 100))"
    by (simp add: stats_content total_length_residues total_gc_filter percent_pos)
next
  assume "0 < length (residues seqs)"
  then show "map_of (calculate_stats e f seqs) ''n_content''
          = Some (PFloat (py_mul (py_truediv (real (length (filter is_n (residues seqs))))
                                             (real (length (residues seqs)))) 100))"
    by (simp add: stats_content total_length_residues total_n_filter percent_pos)
next
  assume "length (residues seqs) = 0"
  then show "map_of (calculate_stats e f seqs) ''gc_content'' = Some (PInt 0)"
    by (simp add: stats_content total_length_residues percent_def)
next
  assume "length (residues seqs) = 0"
  then show "map_of (calculate_stats e f seqs) ''n_content'' = Some (PInt 0)"
    by (simp add: stats_content total_length_residues percent_def)
next
  show "length (residues (pre @ r\<lparr>seq := seq r @ [c]\<rparr> # post))
          = Suc (length (residues (pre @ r # post)))"
    by simp
next
  assume "\<not> is_gc c \<and> \<not> is_n c"
  then show "total_gc (pre @ r\<lparr>seq := seq r @ [c]\<rparr> # post) = total_gc (pre @ r # post)"
    by (simp add: total_gc_filter)
next
  assume "\<not> is_gc c \<and> \<not> is_n c"
  then show "total_n (pre @ r\<lparr>seq := seq r @ [c]\<rparr> # post) = total_n (pre @ r # post)"
    by (simp add: total_n_filter)
next
  assume a: "seq g = ''GGCC'' \<and> (\<forall>r\<in>set pre \<union> set post. seq r = ''AATT'')"
  then have p: "filter is_gc (residues pre) = []" and q: "filter is_gc (residues post) = []"
    using aatt_residues [of pre] aatt_residues [of post] by auto
  from a have "filter is_gc (seq g) = ''GGCC''" by (simp add: is_gc_def)
  with p q have four: "length (filter is_gc (residues (pre @ g # post))) = 4" by simp
  from a have "0 < length (residues (pre @ g # post))" by simp
  then show "map_of (calculate_stats e f (pre @ g # post)) ''gc_content''
          = Some (PFloat (py_mul (py_truediv 4 (real (length (residues (pre @ g # post))))) 100))"
    by (simp add: stats_content total_length_residues total_gc_filter percent_pos four
             del: residues_append residues_Cons)
qed

text \<open>
  Claim C5 on the records \<open>GGCC\<close>, \<open>AATT\<close> (50 percent GC, no N), on a record without
  residues, and on \<open>GGCC\<close> extended by the ambiguity code \<open>R\<close>.
\<close>

theorem C5_content_witness:
  "map_of (calculate_stats sample_env ''a.fasta''
             [\<lparr>seqid = ''s1'', seq = ''GGCC''\<rparr>, \<lparr>seqid = ''s2'', seq = ''AATT''\<rparr>]) ''gc_content''
     = Some (PFloat 50)
   \<and> map_of (calculate_stats sample_env ''a.fasta''
             [\<lparr>seqid = ''s1'', seq = ''GGCC''\<rparr>, \<lparr>seqid = ''s2'', seq = ''AATT''\<rparr>]) ''n_content''
     = Some (PFloat 0)
   \<and> map_of (calculate_stats sample_env ''e.fasta'' [\<lparr>seqid = ''s1'', seq = ''''\<rparr>]) ''gc_content''
     = Some (PInt 0)
   \<and> total_gc [\<lparr>seqid = ''s1'', seq = ''GGCC'' @ ''R''\<rparr>] = total_gc [\<lparr>seqid = ''s1'', seq = ''GGCC''\<rparr>]"
proof -
  have ev: "py_mul (py_truediv 4 8) 100 = 50" "py_mul (py_truediv 0 8) 100 = 0"
    by (simp_all add: double_eval)
  have r: "\<lparr>seqid = ''s1'', seq = ''GGCC''\<rparr>\<lparr>seq := seq \<lparr>seqid = ''s1'', seq = ''GGCC''\<rparr> @ ''R''\<rparr>
             = \<lparr>seqid = ''s1'', seq = ''GGCC'' @ ''R''\<rparr>" by simp
  show ?thesis
    using C5_gc_and_n_content
            [of sample_env "''a.fasta''"
                "[\<lparr>seqid = ''s1'', seq = ''GGCC''\<rparr>, \<lparr>seqid = ''s2'', seq = ''AATT''\<rparr>]"
                "CHR ''R''" "[]" "\<lparr>seqid = ''s1'', seq = ''GGCC''\<rparr>" "[]"
                "\<lparr>seqid = ''s1'', seq = ''GGCC''\<rparr>"]
          C5_gc_and_n_content [of sample_env "''e.fasta''" "[\<lparr>seqid = ''s1'', seq = ''''\<rparr>]"]
    by (simp add: residues_def is_gc_def is_n_def ev)
qed

text \<open>
  Claim C6. Replacing residue characters by their other-case variants in any of the records
  leaves \<open>gc_content\<close> unchanged.
\<close>

theorem C6_gc_content_case_invariant:
  "list_all2 case_variant seqs seqs' \<longrightarrow>
     map_of (calculate_stats e f seqs') ''gc_content''
       = map_of (calculate_stats e f seqs) ''gc_content''"
  by (simp add: stats_content variant_total_gc variant_total_length)

text \<open>Claim C6 on \<open>GGCC\<close>, \<open>AATT\<close> against \<open>gGcC\<close>, \<open>aatt\<close>.\<close>

theorem C6_case_invariant_witness:
  "list_all2 case_variant [\<lparr>seqid = ''s1'', seq = ''GGCC''\<rparr>, \<lparr>seqid = ''s2'', seq = ''AATT''\<rparr>]
                          [\<lparr>seqid = ''s1'', seq = ''gGcC''\<rparr>, \<lparr>seqid = ''s2'', seq = ''aatt''\<rparr>]
   \<and> map_of (calculate_stats sample_env ''a.fasta''
               [\<lparr>seqid = ''s1'', seq = ''gGcC''\<rparr>, \<lparr>seqid = ''s2'', seq = ''aatt''\<rparr>]) ''gc_content''
       = map_of (calculate_stats sample_env ''a.fasta''
               [\<lparr>seqid = ''s1'', seq = ''GGCC''\<rparr>, \<lparr>seqid = ''s2'', seq = ''AATT''\<rparr>]) ''gc_content''"
proof -
  have sw: "swapcase CHR ''G'' = CHR ''g''" "swapcase CHR ''C'' = CHR ''c''"
           "swapcase CHR ''A'' = CHR ''a''" "swapcase CHR ''T'' = CHR ''t''"
    by code_simp+
  have v: "list_all2 case_variant [\<lparr>seqid = ''s1'', seq = ''GGCC''\<rparr>, \<lparr>seqid = ''s2'', seq = ''AATT''\<rparr>]
                          [\<lparr>seqid = ''s1'', seq = ''gGcC''\<rparr>, \<lparr>seqid = ''s2'', seq = ''aatt''\<rparr>]"
    by (simp add: case_variant_def sw)
  with C6_gc_content_case_invariant
         [of "[\<lparr>seqid = ''s1'', seq = ''GGCC''\<rparr>, \<lparr>seqid = ''s2'', seq = ''AATT''\<rparr>]"
             "[\<lparr>seqid = ''s1'', seq = ''gGcC''\<rparr>, \<lparr>seqid = ''s2'', seq = ''aatt''\<rparr>]"
             sample_env "''a.fasta''"]
  show ?thesis by blast
qed

section \<open>Loading and comparison\<close>

lemma compare_loop_acc:
  "compare_loop e files analyzers names out =
     (analyzers @ loaded e files,
      names @ map (path_stem e) (filter (loads e) files),
      out @ map (load_warning e) (filter (\<lambda>file. \<not> loads e file) files))"
proof (induction files arbitrary: analyzers names out)
  case Nil
  show ?case by (simp add: loaded_def)
next
  case (Cons f files)
  show ?case
  proof (cases "new_analyzer e f")
    case (Inl ex)
    then show ?thesis
      by (simp add: Cons.IH loaded_def loads_def load_warning_def)
  next
    case (Inr a)
    then show ?thesis
      by (simp add: Cons.IH loaded_def loads_def)
  qed
qed

lemma length_loaded: "length (loaded e files) = length (filter (loads e) files)"
  by (induction files) (simp_all add: loaded_def loads_def split: sum.splits)

lemma new_analyzer_fields:
  "new_analyzer e file = Inr a \<Longrightarrow>
     assembly_file a = file \<and> seqio_parse e file = Inr (sequences a)
     \<and> stats a = calculate_stats e file (sequences a)"
  by (auto simp add: new_analyzer_def load_sequences_def split: sum.splits if_splits)

lemma loaded_files: "map assembly_file (loaded e files) = filter (loads e) files"
  by (induction files)
     (auto simp add: loaded_def loads_def split: sum.splits dest: new_analyzer_fields)

lemma loaded_stats:
  "a \<in> set (loaded e files) \<Longrightarrow> stats a = calculate_stats e (assembly_file a) (sequences a)"
  by (auto simp add: loaded_def split: sum.splits dest!: new_analyzer_fields [OF sym])

lemma comparison_row:
  assumes "stats a = calculate_stats e f seqs"
  shows "map (map_of (get_basic_stats a @ [(''assembly'', PStr n)])) comparison_cols = table_row a n"
  by (simp add: get_basic_stats_def assms calculate_stats_def Let_def comparison_cols_def
                table_row_def)

lemma comparison_rows:
  assumes "\<forall>a\<in>set analyzers. stats a = calculate_stats e (assembly_file a) (sequences a)"
  shows "map (\<lambda>row. map (map_of row) comparison_cols)
             (map (\<lambda>(a, n). get_basic_stats a @ [(''assembly'', PStr n)]) (zip analyzers names))
           = map (\<lambda>(a, n). table_row a n) (zip analyzers names)"
proof -
  have "\<And>a n. (a, n) \<in> set (zip analyzers names) \<Longrightarrow>
          map (map_of (get_basic_stats a @ [(''assembly'', PStr n)])) comparison_cols
            = table_row a n"
  proof -
    fix a n assume "(a, n) \<in> set (zip analyzers names)"
    then have "a \<in> set analyzers" by (rule set_zip_leftD)
    with assms have "stats a = calculate_stats e (assembly_file a) (sequences a)" by blast
    then show "map (map_of (get_basic_stats a @ [(''assembly'', PStr n)])) comparison_cols
                 = table_row a n"
      by (rule comparison_row)
  qed
  then show ?thesis by (auto simp add: comp_def)
qed

lemma comparison_output_table:
  assumes "\<forall>a\<in>set analyzers. stats a = calculate_stats e (assembly_file a) (sequences a)"
  shows "PrintTable (map (\<lambda>(a, n). table_row a n) (zip analyzers names))
           \<in> set (fst (comparison_output e analyzers names output_dir))"
  unfolding comparison_rows [OF assms, symmetric]
  by (simp add: comparison_output_def Let_def split: option.splits)

lemma compare_assemblies_few:
  assumes "length (filter (loads e) files) < 2"
  shows "compare_assemblies e files output_dir
           = (map (load_warning e) (filter (\<lambda>file. \<not> loads e file) files)
                @ [Print ''Need at least 2 valid assemblies for comparison''], None)"
  using assms by (simp add: compare_assemblies_def compare_loop_acc length_loaded)

lemma compare_assemblies_many:
  assumes "2 \<le> length (filter (loads e) files)"
  shows "compare_assemblies e files output_dir
           = (map (load_warning e) (filter (\<lambda>file. \<not> loads e file) files)
                @ fst (comparison_output e (loaded e files)
                         (map (path_stem e) (filter (loads e) files)) output_dir),
              snd (comparison_output e (loaded e files)
                     (map (path_stem e) (filter (loads e) files)) output_dir))"
proof -
  from assms have "\<not> length (loaded e files) < 2" by (simp add: length_loaded)
  then show ?thesis
    by (simp add: compare_assemblies_def compare_loop_acc split: prod.splits)
qed

lemma stats_keys: "map fst (calculate_stats e f seqs) = basic_keys @ [''lengths'']"
  by (simp add: calculate_stats_def Let_def basic_keys_def)

lemma stats_file: "map_of (calculate_stats e f seqs) ''file'' = Some (PStr (path_str e f))"
  by (simp add: calculate_stats_def Let_def)

lemma map_of_filter_key:
  "k \<noteq> k' \<Longrightarrow> map_of (filter (\<lambda>(a, v). a \<noteq> k') xs) k = map_of xs k"
  by (induction xs) auto

lemma map_of_filter_key_none: "map_of (filter (\<lambda>(a, v). a \<noteq> k') xs) k' = None"
  by (induction xs) auto

lemma map_fst_filter_key:
  "map fst (filter (\<lambda>(a, v). a \<noteq> k') xs) = filter (\<lambda>a. a \<noteq> k') (map fst xs)"
  by (induction xs) auto

lemma sample_loads:
  "loads sample_env ''a.fasta''" "loads sample_env ''b.fasta''"
  "\<not> loads sample_env ''missing.fasta''" "\<not> loads sample_env ''locked/c.fasta''"
  by (simp_all add: loads_def new_analyzer_def load_sequences_def sample_env_def)

text \<open>
  Claim C7, as amended. Constructing an analyzer fails with \<open>FileNotFoundError\<close> exactly
  when the existence check answers that the path does not exist, and with \<open>ValueError\<close>
  exactly when it answers that the path exists and the parser raises or yields no record.
  It succeeds exactly when the check answers that the path exists and the parser yields a
  non-empty list; then the analyzer holds that list, in the parser's order, and the bundle
  computed from it. When the check gives no answer, loading does not succeed. A failure
  carries an exception only, so no bundle exists without a successful load.
\<close>

theorem C7_load_errors:
  "(fails_not_found (new_analyzer e file) \<longleftrightarrow> path_exists e file = Inr False)
   \<and> (fails_parse (new_analyzer e file) \<longleftrightarrow>
        path_exists e file = Inr True
        \<and> (case seqio_parse e file of Inl msg \<Rightarrow> True | Inr parsed \<Rightarrow> parsed = []))
   \<and> (is_loaded (new_analyzer e file) \<longleftrightarrow>
        path_exists e file = Inr True
        \<and> (\<exists>parsed. seqio_parse e file = Inr parsed \<and> parsed \<noteq> []))
   \<and> (\<forall>a. new_analyzer e file = Inr a \<longrightarrow>
        seqio_parse e file = Inr (sequences a)
        \<and> stats a = calculate_stats e file (sequences a))
   \<and> (\<forall>msg. path_exists e file = Inl msg \<longrightarrow> \<not> is_loaded (new_analyzer e file))"
  by (auto simp add: new_analyzer_def load_sequences_def fails_not_found_def fails_parse_def
                     is_loaded_def
           split: sum.splits if_splits)

text \<open>
  The amended claim C7 on a missing path, a file without records, a malformed file, a good
  one and a path for which the existence check gives no answer.
\<close>

theorem C7_load_witness:
  "path_exists sample_env ''missing.fasta'' = Inr False
   \<and> fails_not_found (new_analyzer sample_env ''missing.fasta'')
   \<and> path_exists sample_env ''empty.fasta'' = Inr True
   \<and> fails_parse (new_analyzer sample_env ''empty.fasta'')
   \<and> fails_parse (new_analyzer sample_env ''bad.txt'')
   \<and> (\<exists>a. new_analyzer sample_env ''a.fasta'' = Inr a
          \<and> sequences a = [\<lparr>seqid = ''s1'', seq = ''GGCC''\<rparr>, \<lparr>seqid = ''s2'', seq = ''AATT''\<rparr>])
   \<and> \<not> is_loaded (new_analyzer sample_env ''locked/c.fasta'')"
proof -
  have l: "is_loaded (new_analyzer sample_env ''a.fasta'')"
    using C7_load_errors [of sample_env "''a.fasta''"] by (simp add: sample_env_def)
  then obtain a where a: "new_analyzer sample_env ''a.fasta'' = Inr a"
    by (auto simp add: is_loaded_def split: sum.splits)
  with C7_load_errors [of sample_env "''a.fasta''"]
  have "seqio_parse sample_env ''a.fasta'' = Inr (sequences a)" by blast
  then have "sequences a = [\<lparr>seqid = ''s1'', seq = ''GGCC''\<rparr>, \<lparr>seqid = ''s2'', seq = ''AATT''\<rparr>]"
    by (simp add: sample_env_def)
  with a show ?thesis
    using C7_load_errors [of sample_env "''missing.fasta''"]
          C7_load_errors [of sample_env "''empty.fasta''"]
          C7_load_errors [of sample_env "''bad.txt''"]
          C7_load_errors [of sample_env "''locked/c.fasta''"]
    by (simp add: sample_env_def)
qed

text \<open>
  Claim C7 as stated leaves two failures and success: a missing path gives the one, an
  existing path the other or success. The path \<open>locked/c.fasta\<close> of the sample environment
  lies in a directory that may not be searched: the existence check raises, and loading
  neither succeeds nor fails with either of the two errors.
\<close>

theorem C7_unexamined_path_counterexample:
  "path_exists sample_env ''locked/c.fasta'' = Inl ''[Errno 13] Permission denied''
   \<and> new_analyzer sample_env ''locked/c.fasta'' = Inl (OSError ''[Errno 13] Permission denied'')
   \<and> \<not> fails_not_found (new_analyzer sample_env ''locked/c.fasta'')
   \<and> \<not> fails_parse (new_analyzer sample_env ''locked/c.fasta'')
   \<and> \<not> is_loaded (new_analyzer sample_env ''locked/c.fasta'')"
  by (simp add: new_analyzer_def sample_env_def fails_not_found_def fails_parse_def is_loaded_def)

text \<open>
  Claim C8. An input that fails to load puts one warning into the output of the comparison
  and is left out of it, and the inputs after it are still processed: the output begins
  with the warnings of exactly the failing inputs, in order, and what follows is computed
  from exactly the inputs that load, in order. With fewer than two loaded inputs what
  follows is the one message that two valid assemblies are needed, and nothing else: no
  table, no chart, no file, no exception. With two or more it is the comparison output of
  the loaded inputs, whose table has one row for each of them.
\<close>

theorem C8_comparison_skips_failed_inputs:
  "(length (filter (loads e) files) < 2 \<longrightarrow>
      compare_assemblies e files output_dir
        = (map (load_warning e) (filter (\<lambda>file. \<not> loads e file) files)
             @ [Print ''Need at least 2 valid assemblies for comparison''], None))
   \<and> (2 \<le> length (filter (loads e) files) \<longrightarrow>
        compare_assemblies e files output_dir
          = (map (load_warning e) (filter (\<lambda>file. \<not> loads e file) files)
               @ fst (comparison_output e (loaded e files)
                        (map (path_stem e) (filter (loads e) files)) output_dir),
             snd (comparison_output e (loaded e files)
                    (map (path_stem e) (filter (loads e) files)) output_dir))
      \<and> PrintTable (map (\<lambda>(a, n). table_row a n)
                        (zip (loaded e files) (map (path_stem e) (filter (loads e) files))))
          \<in> set (fst (compare_assemblies e files output_dir))
      \<and> length (zip (loaded e files) (map (path_stem e) (filter (loads e) files)))
          = length (filter (loads e) files))
   \<and> map assembly_file (loaded e files) = filter (loads e) files
   \<and> (\<forall>file\<in>set files. loads e file \<longrightarrow> new_analyzer e file \<in> Inr ` set (loaded e files))
   \<and> (\<forall>file\<in>set files. \<not> loads e file \<longrightarrow>
         load_warning e file \<in> set (fst (compare_assemblies e files output_dir)))"
proof (intro conjI impI ballI)
  assume "length (filter (loads e) files) < 2"
  then show "compare_assemblies e files output_dir
        = (map (load_warning e) (filter (\<lambda>file. \<not> loads e file) files)
             @ [Print ''Need at least 2 valid assemblies for comparison''], None)"
    by (rule compare_assemblies_few)
next
  assume "2 \<le> length (filter (loads e) files)"
  then show "compare_assemblies e files output_dir
          = (map (load_warning e) (filter (\<lambda>file. \<not> loads e file) files)
               @ fst (comparison_output e (loaded e files)
                        (map (path_stem e) (filter (loads e) files)) output_dir),
             snd (comparison_output e (loaded e files)
                    (map (path_stem e) (filter (loads e) files)) output_dir))"
    by (rule compare_assemblies_many)
next
  assume many: "2 \<le> length (filter (loads e) files)"
  have "\<forall>a\<in>set (loaded e files). stats a = calculate_stats e (assembly_file a) (sequences a)"
    by (blast dest: loaded_stats)
  from comparison_output_table [OF this]
  show "PrintTable (map (\<lambda>(a, n). table_row a n)
                        (zip (loaded e files) (map (path_stem e) (filter (loads e) files))))
          \<in> set (fst (compare_assemblies e files output_dir))"
    by (simp add: compare_assemblies_many [OF many])
next
  show "length (zip (loaded e files) (map (path_stem e) (filter (loads e) files)))
          = length (filter (loads e) files)"
    by (simp add: length_loaded)
next
  show "map assembly_file (loaded e files) = filter (loads e) files"
    by (rule loaded_files)
next
  fix f assume "f \<in> set files" "loads e f"
  then show "new_analyzer e f \<in> Inr ` set (loaded e files)"
    by (force simp add: loaded_def loads_def split: sum.splits)
next
  fix f assume f: "f \<in> set files" "\<not> loads e f"
  show "load_warning e f \<in> set (fst (compare_assemblies e files output_dir))"
  proof (cases "length (filter (loads e) files) < 2")
    case True
    with f show ?thesis by (simp add: compare_assemblies_few)
  next
    case False
    then have "2 \<le> length (filter (loads e) files)" by simp
    with f show ?thesis by (simp add: compare_assemblies_many)
  qed
qed

text \<open>
  Claim C8 on one good and one missing path, and on a missing path followed by two good
  ones.
\<close>

theorem C8_comparison_witness:
  "length (filter (loads sample_env) [''a.fasta'', ''missing.fasta'']) < 2
   \<and> compare_assemblies sample_env [''a.fasta'', ''missing.fasta''] None
       = ([Print ''Error processing missing.fasta: Assembly file not found: missing.fasta'',
           Print ''Need at least 2 valid assemblies for comparison''], None)
   \<and> 2 \<le> length (filter (loads sample_env) [''missing.fasta'', ''a.fasta'', ''b.fasta''])
   \<and> map assembly_file (loaded sample_env [''missing.fasta'', ''a.fasta'', ''b.fasta''])
       = [''a.fasta'', ''b.fasta'']
   \<and> Print ''Error processing missing.fasta: Assembly file not found: missing.fasta''
       \<in> set (fst (compare_assemblies sample_env [''missing.fasta'', ''a.fasta'', ''b.fasta''] None))
   \<and> PrintTable (map (\<lambda>(a, n). table_row a n)
                     (zip (loaded sample_env [''missing.fasta'', ''a.fasta'', ''b.fasta''])
                          [''a'', ''b'']))
       \<in> set (fst (compare_assemblies sample_env [''missing.fasta'', ''a.fasta'', ''b.fasta''] None))"
proof -
  have w: "load_warning sample_env ''missing.fasta''
             = Print ''Error processing missing.fasta: Assembly file not found: missing.fasta''"
    by (simp add: load_warning_def new_analyzer_def sample_env_def)
  have st: "path_stem sample_env ''a.fasta'' = ''a''" "path_stem sample_env ''b.fasta'' = ''b''"
    by (simp_all add: sample_env_def)
  show ?thesis
    using C8_comparison_skips_failed_inputs [of sample_env "[''a.fasta'', ''missing.fasta'']" None]
          C8_comparison_skips_failed_inputs
            [of sample_env "[''missing.fasta'', ''a.fasta'', ''b.fasta'']" None]
    by (auto simp add: sample_loads w st)
qed

text \<open>
  Claim C10. For a successfully constructed analyzer the summary mapping has the keys of the
  bundle without \<open>lengths\<close>, in order, headed by the key \<open>file\<close>; every value is the
  bundle's, and \<open>file\<close> holds the string of the input path.
\<close>

theorem C10_basic_stats_fields:
  "new_analyzer e file = Inr a \<longrightarrow>
     map fst (stats a) = basic_keys @ [''lengths'']
     \<and> map fst (get_basic_stats a) = basic_keys
     \<and> (\<forall>k. k \<noteq> ''lengths'' \<longrightarrow> map_of (get_basic_stats a) k = map_of (stats a) k)
     \<and> map_of (get_basic_stats a) ''lengths'' = None
     \<and> map_of (get_basic_stats a) ''file'' = Some (PStr (path_str e file))"
proof
  assume ok: "new_analyzer e file = Inr a"
  then have st: "stats a = calculate_stats e file (sequences a)"
    by (blast dest: new_analyzer_fields)
  have k1: "map fst (stats a) = basic_keys @ [''lengths'']" by (simp add: st stats_keys)
  have k2: "map fst (get_basic_stats a) = basic_keys"
    by (simp add: get_basic_stats_def map_fst_filter_key k1) (simp add: basic_keys_def)
  have k3: "\<forall>k. k \<noteq> ''lengths'' \<longrightarrow> map_of (get_basic_stats a) k = map_of (stats a) k"
    by (simp add: get_basic_stats_def map_of_filter_key)
  have k4: "map_of (get_basic_stats a) ''lengths'' = None"
    by (simp add: get_basic_stats_def map_of_filter_key_none)
  have k5: "map_of (get_basic_stats a) ''file'' = Some (PStr (path_str e file))"
    by (simp add: get_basic_stats_def map_of_filter_key st stats_file)
  from k1 k2 k3 k4 k5
  show "map fst (stats a) = basic_keys @ [''lengths'']
     \<and> map fst (get_basic_stats a) = basic_keys
     \<and> (\<forall>k. k \<noteq> ''lengths'' \<longrightarrow> map_of (get_basic_stats a) k = map_of (stats a) k)
     \<and> map_of (get_basic_stats a) ''lengths'' = None
     \<and> map_of (get_basic_stats a) ''file'' = Some (PStr (path_str e file))"
    by blast
qed

text \<open>Claim C10 on the file \<open>b.fasta\<close> of the sample environment.\<close>

theorem C10_basic_stats_witness:
  "new_analyzer sample_env ''b.fasta''
     = Inr \<lparr>assembly_file = ''b.fasta'', sequences = [\<lparr>seqid = ''t1'', seq = ''ACGTN''\<rparr>],
            stats = calculate_stats sample_env ''b.fasta'' [\<lparr>seqid = ''t1'', seq = ''ACGTN''\<rparr>]\<rparr>
   \<and> map fst (get_basic_stats
        \<lparr>assembly_file = ''b.fasta'', sequences = [\<lparr>seqid = ''t1'', seq = ''ACGTN''\<rparr>],
         stats = calculate_stats sample_env ''b.fasta'' [\<lparr>seqid = ''t1'', seq = ''ACGTN''\<rparr>]\<rparr>)
       = basic_keys
   \<and> map_of (get_basic_stats
        \<lparr>assembly_file = ''b.fasta'', sequences = [\<lparr>seqid = ''t1'', seq = ''ACGTN''\<rparr>],
         stats = calculate_stats sample_env ''b.fasta'' [\<lparr>seqid = ''t1'', seq = ''ACGTN''\<rparr>]\<rparr>) ''file''
       = Some (PStr ''b.fasta'')"
proof -
  have ok: "new_analyzer sample_env ''b.fasta''
     = Inr \<lparr>assembly_file = ''b.fasta'', sequences = [\<lparr>seqid = ''t1'', seq = ''ACGTN''\<rparr>],
            stats = calculate_stats sample_env ''b.fasta'' [\<lparr>seqid = ''t1'', seq = ''ACGTN''\<rparr>]\<rparr>"
    by (simp add: new_analyzer_def load_sequences_def sample_env_def)
  have p: "path_str sample_env ''b.fasta'' = ''b.fasta''" by (simp add: sample_env_def)
  from C10_basic_stats_fields
         [of sample_env "''b.fasta''"
             "\<lparr>assembly_file = ''b.fasta'', sequences = [\<lparr>seqid = ''t1'', seq = ''ACGTN''\<rparr>],
               stats = calculate_stats sample_env ''b.fasta'' [\<lparr>seqid = ''t1'', seq = ''ACGTN''\<rparr>]\<rparr>"]
       ok p
  show ?thesis by simp
qed

end
